theory Spec2Isabelle
  imports Main "HOL-Library.Word" "HOL-Library.Sublist" "HOL-Library.Multiset"
begin

text \<open>
  A model of \<open>src/cli.ts\<close> of crowgent-openapi. The file holds two revisions of the
  program; the model follows the later one, which has the single-file branch and the
  question-and-answer loop (\<open>collectFiles\<close> and the fence strip are the same in both).
\<close>

section \<open>JavaScript strings\<close>

text \<open>
  A JavaScript string is a sequence of UTF-16 code units. String literals of the source
  that are plain ASCII are written with \<open>str\<close>; other code units are written as numbers.
\<close>

type_synonym jschar = "16 word"
type_synonym jsstring = "jschar list"

definition str :: "string \<Rightarrow> jsstring" where
  "str s = map (\<lambda>c. word_of_nat (of_char c)) s"

abbreviation (input) LF :: jschar where
  "LF \<equiv> 0x0A"

abbreviation (input) backtick :: jschar where
  "backtick \<equiv> 0x60"

abbreviation (input) dot :: jschar where
  "dot \<equiv> 0x2E"

text \<open>The three backticks of a Markdown code fence.\<close>

definition fence :: jsstring where
  "fence = [backtick, backtick, backtick]"

text \<open>
  \<^verbatim>\<open>String.prototype.trim\<close> removes the code units of the ECMAScript productions
  WhiteSpace and LineTerminator from both ends.
\<close>

definition isWhiteSpace :: "jschar \<Rightarrow> bool" where
  "isWhiteSpace c \<longleftrightarrow>
     c \<in> {0x09, 0x0A, 0x0B, 0x0C, 0x0D, 0x20, 0xA0, 0x1680, 0x2028, 0x2029, 0x202F, 0x205F,
          0x3000, 0xFEFF} \<or> (0x2000 \<le> c \<and> c \<le> 0x200A)"

definition trim :: "jsstring \<Rightarrow> jsstring" where
  "trim s = rev (dropWhile isWhiteSpace (rev (dropWhile isWhiteSpace s)))"

text \<open>
  \<^verbatim>\<open>String.prototype.toLowerCase\<close> on the ASCII letters; other code units are left as they
  are. The source only compares the result with the literal \<open>done\<close>, and beyond ASCII the
  Unicode lower-case mapping yields no ASCII letter but \<open>k\<close> (from U+212A) and \<open>i\<close> (from
  U+0130), so that comparison is decided by the ASCII part alone.
\<close>

definition toLowerCase :: "jsstring \<Rightarrow> jsstring" where
  "toLowerCase s = map (\<lambda>c. if 0x41 \<le> c \<and> c \<le> 0x5A then c + 0x20 else c) s"

text \<open>
  \<^verbatim>\<open>Array.prototype.join\<close>: the elements with the separator between neighbours.
\<close>

fun joinWith :: "jsstring \<Rightarrow> jsstring list \<Rightarrow> jsstring" where
  "joinWith sep [] = []"
| "joinWith sep [x] = x"
| "joinWith sep (x # y # ys) = x @ sep @ joinWith sep (y # ys)"

text \<open>
  A value that is a string or \<^verbatim>\<open>undefined\<close>/\<^verbatim>\<open>null\<close>: \<open>!v\<close> holds when it is missing or
  empty, and \<open>v || d\<close> falls back to \<open>d\<close> in exactly that case.
\<close>

fun truthy :: "jsstring option \<Rightarrow> bool" where
  "truthy None = False"
| "truthy (Some []) = False"
| "truthy (Some (c # cs)) = True"

fun orElse :: "jsstring option \<Rightarrow> jsstring \<Rightarrow> jsstring" where
  "orElse None d = d"
| "orElse (Some []) d = d"
| "orElse (Some (c # cs)) d = c # cs"

section \<open>The two regular expressions of the fence strip\<close>

text \<open>
  The source normalises the completion with
  \<^verbatim>\<open>yaml.replace(/^```ya?ml\n?/i, '').replace(/\n?```$/i, '').trim()\<close>.
  Both patterns are sequences of single characters, optional single characters and the
  end anchor, so the matcher below covers them: \<open>One cs\<close> consumes one code unit out of
  \<open>cs\<close>, \<open>Opt cs\<close> is the greedy \<open>?\<close> (take the unit first, give it back when the rest
  of the pattern then fails), \<open>EndOfInput\<close> is \<open>$\<close> without the \<open>m\<close> flag. With the
  \<open>i\<close> flag a pattern letter accepts its lower-case and upper-case ASCII forms, and no
  other code unit. \<open>rxmatch ps s\<close> is the rest of \<open>s\<close> after the match of \<open>ps\<close> at its
  start.
\<close>

datatype rx = One "jschar list" | Opt "jschar list" | EndOfInput

fun rxmatch :: "rx list \<Rightarrow> jsstring \<Rightarrow> jsstring option" where
  "rxmatch [] s = Some s"
| "rxmatch (EndOfInput # ps) s = (if s = [] then rxmatch ps s else None)"
| "rxmatch (One cs # ps) [] = None"
| "rxmatch (One cs # ps) (c # s) = (if c \<in> set cs then rxmatch ps s else None)"
| "rxmatch (Opt cs # ps) [] = rxmatch ps []"
| "rxmatch (Opt cs # ps) (c # s) =
     (if c \<in> set cs
      then (case rxmatch ps s of Some r \<Rightarrow> Some r | None \<Rightarrow> rxmatch ps (c # s))
      else rxmatch ps (c # s))"

text \<open>
  \<open>replace\<close> with a pattern that starts with \<open>^\<close> (no \<open>m\<close> flag) and the empty
  replacement: only a match at index 0 counts.
\<close>

definition replaceAtStart :: "rx list \<Rightarrow> jsstring \<Rightarrow> jsstring" where
  "replaceAtStart ps s = (case rxmatch ps s of Some rest \<Rightarrow> rest | None \<Rightarrow> s)"

text \<open>
  \<open>replace\<close> with a pattern without the \<open>g\<close> flag and the empty replacement: the
  leftmost match is removed.
\<close>

fun replaceFirst :: "rx list \<Rightarrow> jsstring \<Rightarrow> jsstring" where
  "replaceFirst ps [] = (case rxmatch ps [] of Some rest \<Rightarrow> rest | None \<Rightarrow> [])"
| "replaceFirst ps (c # s) =
     (case rxmatch ps (c # s) of Some rest \<Rightarrow> rest | None \<Rightarrow> c # replaceFirst ps s)"

text \<open>\<^verbatim>\<open>/^```ya?ml\n?/i\<close>\<close>

definition leadingFence :: "rx list" where
  "leadingFence = [One [backtick], One [backtick], One [backtick], One [0x79, 0x59],
                   Opt [0x61, 0x41], One [0x6D, 0x4D], One [0x6C, 0x4C], Opt [LF]]"

text \<open>\<^verbatim>\<open>/\n?```$/i\<close>\<close>

definition trailingFence :: "rx list" where
  "trailingFence = [Opt [LF], One [backtick], One [backtick], One [backtick], EndOfInput]"

text \<open>
  The variable \<open>yaml\<close> as it is passed to \<open>writeFileSync\<close>; the argument is
  \<open>response.choices[0].message.content\<close>, which may be \<open>null\<close>.
\<close>

definition yamlText :: "jsstring option \<Rightarrow> jsstring" where
  "yamlText content =
     trim (replaceFirst trailingFence (replaceAtStart leadingFence
       (case content of None \<Rightarrow> [] | Some s \<Rightarrow> s)))"

text \<open>The language tags the leading pattern accepts: yaml and yml in any letter casing.\<close>

definition yamlTag :: "jsstring \<Rightarrow> bool" where
  "yamlTag tag \<longleftrightarrow> toLowerCase tag = str ''yaml'' \<or> toLowerCase tag = str ''yml''"

section \<open>The file system and collectFiles\<close>

text \<open>
  What \<open>readdirSync\<close>, \<open>statSync\<close> and \<open>readFileSync\<close> see: a directory lists its entries
  by name in the order \<open>readdirSync\<close> returns them; a file has a size in bytes and a
  decoded content; \<open>Broken\<close> is an entry on which \<open>statSync\<close> throws (a dangling link).
\<close>

datatype node = File nat jsstring | Dir "(jsstring \<times> node) list" | Broken

datatype io_error = ENOENT jsstring

record sourcefile =
  path :: jsstring
  content :: jsstring

text \<open>
  \<open>join\<close> and \<open>relative\<close> of Node's \<open>path\<close> module are not part of the repository; the
  model takes them as parameters.
\<close>

record pathlib =
  join :: "jsstring \<Rightarrow> jsstring \<Rightarrow> jsstring"
  relative :: "jsstring \<Rightarrow> jsstring \<Rightarrow> jsstring"

definition EXTENSIONS :: "jsstring list" where
  "EXTENSIONS = map str [''.ts'', ''.js'', ''.tsx'', ''.jsx'', ''.py'', ''.rb'', ''.go'',
                         ''.java'', ''.kt'', ''.rs'']"

definition IGNORE :: "jsstring list" where
  "IGNORE = map str [''node_modules'', ''.git'', ''dist'', ''build'', ''__pycache__'',
                     ''.next'', ''coverage'']"

text \<open>
  Node's \<open>path.extname\<close> on a directory entry name (one path component): the part from
  the last dot to the end; empty when there is no dot, when the only dot is the first
  character, and for the name \<open>..\<close>.
\<close>

definition extname :: "jsstring \<Rightarrow> jsstring" where
  "extname entry =
     (if dot \<notin> set entry \<or> entry = str ''..'' then []
      else let ext = dot # rev (takeWhile (\<lambda>c. c \<noteq> dot) (rev entry))
           in if ext = entry then [] else ext)"

text \<open>
  \<open>collectFiles(dir, root)\<close>. The last argument is what \<open>readdirSync(dir)\<close> and
  \<open>statSync\<close> return for \<open>dir\<close>. An exception of \<open>statSync\<close> leaves the function at once.
\<close>

fun collectFiles :: "pathlib \<Rightarrow> jsstring \<Rightarrow> jsstring \<Rightarrow> (jsstring \<times> node) list
    \<Rightarrow> io_error + sourcefile list" where
  "collectFiles P dir root [] = Inr []"
| "collectFiles P dir root ((entry, stat) # entries) =
     (if prefix (str ''.'') entry \<or> entry \<in> set IGNORE then collectFiles P dir root entries
      else let fullPath = join P dir entry in
        (case stat of
           Broken \<Rightarrow> Inl (ENOENT fullPath)
         | Dir sub \<Rightarrow>
             (case collectFiles P fullPath root sub of
                Inl e \<Rightarrow> Inl e
              | Inr found \<Rightarrow>
                  (case collectFiles P dir root entries of
                     Inl e \<Rightarrow> Inl e
                   | Inr others \<Rightarrow> Inr (found @ others)))
         | File bytes text \<Rightarrow>
             if extname entry \<in> set EXTENSIONS \<and> bytes < 100000
             then (case collectFiles P dir root entries of
                     Inl e \<Rightarrow> Inl e
                   | Inr others \<Rightarrow>
                       Inr (\<lparr>path = relative P root fullPath, content = text\<rparr> # others))
             else collectFiles P dir root entries))"

text \<open>
  \<open>reaches entries names n\<close>: walking down from a directory with these entries along
  the entry names \<open>names\<close> arrives at the node \<open>n\<close>, every name but the last being a
  directory.
\<close>

fun reaches :: "(jsstring \<times> node) list \<Rightarrow> jsstring list \<Rightarrow> node \<Rightarrow> bool" where
  "reaches entries [] n = False"
| "reaches entries [name] n = ((name, n) \<in> set entries)"
| "reaches entries (name # names) n =
     (\<exists>e \<in> set entries. fst e = name \<and>
        (case snd e of Dir sub \<Rightarrow> reaches sub names n | _ \<Rightarrow> False))"

text \<open>
  The expression that computes \<open>files\<close> in the action: \<open>stat\<close> is the result of
  \<open>statSync\<close> on the target.
\<close>

definition scan :: "pathlib \<Rightarrow> jsstring \<Rightarrow> node \<Rightarrow> io_error + sourcefile list" where
  "scan P targetDir stat =
     (case stat of
        Dir entries \<Rightarrow> collectFiles P targetDir targetDir entries
      | File bytes text \<Rightarrow> Inr [\<lparr>path = targetDir, content = text\<rparr>]
      | Broken \<Rightarrow> Inl (ENOENT targetDir))"

section \<open>The context sent to the model\<close>

text \<open>
  \<^verbatim>\<open>files.map(f => `### ${f.path}\n```\n${f.content}\n```\<close>\<^verbatim>\<open>`).join('\n\n')\<close>
\<close>

definition block :: "sourcefile \<Rightarrow> jsstring" where
  "block f = str ''### '' @ path f @ [LF] @ fence @ [LF] @ content f @ [LF] @ fence"

definition codeContext :: "sourcefile list \<Rightarrow> jsstring" where
  "codeContext files = joinWith [LF, LF] (map block files)"

section \<open>The completion service\<close>

text \<open>
  \<open>openai.chat.completions.create\<close> is an external service: a function from the request
  to a reply or a thrown error with its message (the empty message stands for a missing
  one). The sampling temperature and the token usage of the reply have no influence on
  the control flow and are left out.
\<close>

datatype role = System | User | Assistant

datatype message = Message role jsstring

record request =
  req_model :: jsstring
  req_messages :: "message list"
  max_tokens :: nat

datatype reply = Reply "jsstring option" | Failure jsstring

section \<open>Prompts, effects and outcomes\<close>

text \<open>
  What a prompt of the terminal library returns: the cancel symbol or a value. For the
  directory prompt this is the value the library hands back once its \<open>validate\<close>
  callback has accepted a submission. A run is described by the effects it performs, in
  order, and by how the process ends. The effects recorded are the prompts shown, the
  completion requests, the write of the output file and the calls of \<open>p.log.error\<close>
  (by kind, not by wording); notes, warnings and the spinner are display only.
\<close>

datatype 'a answer = Cancel | Answer 'a

datatype prompt = Consent | Directory | OutputPath | BaseUrl | WantHelp | Question

datatype report = MissingApiKey | CannotFind jsstring | NoSourceFiles | InvalidApiKey
  | RateLimited | ErrorMessage jsstring

datatype event = Asked prompt | Requested request | Wrote jsstring jsstring | Reported report

datatype status = Exit nat | Crashed io_error | AwaitingInput

record outcome =
  status :: status
  events :: "event list"

fun isRequest :: "event \<Rightarrow> bool" where
  "isRequest (Requested r) = True"
| "isRequest e = False"

fun isWrite :: "event \<Rightarrow> bool" where
  "isWrite (Wrote p t) = True"
| "isWrite e = False"

section \<open>runQA\<close>

definition qaSystemPrompt :: jsstring where
  \<open>qaSystemPrompt = joinWith [LF]
     [str ''You are a helpful assistant for Crow (https://usecrow.ai), an AI agent platform.'',
      [],
      str ''You help developers understand:'',
      str ''- OpenAPI specifications: what they are, how they describe REST APIs'',
      str ''- Crow\'s workflow: generate spec '' @ [0x2192] @ str '' upload to app.usecrow.ai/integration/openapi ''
        @ [0x2192] @ str '' endpoints become "actions"'',
      str ''- Actions: tools that the AI agent can call on behalf of users to interact with their API'',
      str ''- How Crow uses the OpenAPI spec to know what parameters to pass, what responses to expect'',
      [],
      str ''Be concise, friendly, and helpful. Keep answers to 2-3 sentences unless they ask for more detail.'',
      str ''If they ask something unrelated to Crow or OpenAPI, politely redirect them.'']\<close>

text \<open>
  One pass through the body of the \<open>while (true)\<close> loop, given the value the question
  prompt returned: \<open>Break\<close> leaves the loop; otherwise the turn ends with the new
  \<open>messages\<close> array, either with the assistant's answer pushed or, when the request
  threw, without it.
\<close>

datatype turn = Break | Completed "message list" "event list" | Failed "message list" "event list"

definition qaTurn :: "(request \<Rightarrow> reply) \<Rightarrow> jsstring \<Rightarrow> message list \<Rightarrow> jsstring answer \<Rightarrow> turn" where
  \<open>qaTurn openai model messages question =
     (case question of
        Cancel \<Rightarrow> Break
      | Answer q \<Rightarrow>
          if q = [] \<or> toLowerCase q = str ''done'' then Break
          else
            let messages1 = messages @ [Message User q];
                request = \<lparr>req_model = model, req_messages = messages1, max_tokens = 300\<rparr>
            in (case openai request of
                  Reply text \<Rightarrow>
                    let answer = orElse text (str ''Sorry, I couldn\'t generate a response.'')
                    in Completed (messages1 @ [Message Assistant answer]) [Requested request]
                | Failure msg \<Rightarrow>
                    Failed messages1
                      [Requested request,
                       Reported (ErrorMessage (orElse (Some msg) (str ''Unknown error'')))]))\<close>

text \<open>
  The loop. The user's successive inputs at the question prompt are a list; when it is
  used up the process waits at the prompt and has not finished.
\<close>

record qa_result =
  finished :: bool
  history :: "message list"
  trace :: "event list"

fun qaLoop :: "(request \<Rightarrow> reply) \<Rightarrow> jsstring \<Rightarrow> message list \<Rightarrow> jsstring answer list \<Rightarrow> qa_result" where
  "qaLoop openai model messages [] =
     \<lparr>finished = False, history = messages, trace = [Asked Question]\<rparr>"
| "qaLoop openai model messages (question # later) =
     (case qaTurn openai model messages question of
        Break \<Rightarrow> \<lparr>finished = True, history = messages, trace = [Asked Question]\<rparr>
      | Completed messages' ev \<Rightarrow>
          (let r = qaLoop openai model messages' later
           in r\<lparr>trace := Asked Question # ev @ trace r\<rparr>)
      | Failed messages' ev \<Rightarrow>
          (let r = qaLoop openai model messages' later
           in r\<lparr>trace := Asked Question # ev @ trace r\<rparr>))"

definition runQA :: "(request \<Rightarrow> reply) \<Rightarrow> jsstring \<Rightarrow> jsstring answer list \<Rightarrow> qa_result" where
  "runQA openai model questions = qaLoop openai model [Message System qaSystemPrompt] questions"

text \<open>
  The values of \<open>messages\<close> at the head of the loop, one per iteration that is started.
\<close>

fun qaStates :: "(request \<Rightarrow> reply) \<Rightarrow> jsstring \<Rightarrow> message list \<Rightarrow> jsstring answer list
    \<Rightarrow> message list list" where
  "qaStates openai model messages [] = [messages]"
| "qaStates openai model messages (question # later) =
     messages #
       (case qaTurn openai model messages question of
          Break \<Rightarrow> []
        | Completed messages' ev \<Rightarrow> qaStates openai model messages' later
        | Failed messages' ev \<Rightarrow> qaStates openai model messages' later)"

section \<open>The action of the command\<close>

text \<open>
  The inputs of a run: the parsed options and the positional argument, the environment
  (the key variable, the file system by path, the path functions, whether a write to a
  path throws, the completion service) and what the user answers at each prompt that is
  shown.
\<close>

record opts =
  "output" :: "jsstring option"
  apiKey :: "jsstring option"
  model :: jsstring
  baseUrl :: "jsstring option"
  yes :: bool

record env =
  OPENAI_API_KEY :: "jsstring option"
  filesystem :: "jsstring \<Rightarrow> node option"
  paths :: pathlib
  writeFails :: "jsstring \<Rightarrow> jsstring option"
  completions :: "request \<Rightarrow> reply"

record user =
  consent :: "bool answer"
  dirInput :: "jsstring answer"
  outputInput :: "jsstring answer"
  urlInput :: "jsstring answer"
  wantHelp :: "bool answer"
  questions :: "jsstring answer list"

definition existsSync :: "env \<Rightarrow> jsstring \<Rightarrow> bool" where
  "existsSync E p = (case filesystem E p of Some (File b t) \<Rightarrow> True | Some (Dir es) \<Rightarrow> True | _ \<Rightarrow> False)"

definition generationPrompt :: jsstring where
  "generationPrompt = joinWith [LF]
     [str ''You are an expert at generating OpenAPI 3.0 specifications. '',
      str ''Analyze the provided backend code and generate a complete, valid OpenAPI 3.0.3 YAML spec.'',
      str ''Include: all endpoints, HTTP methods, path/query parameters, request bodies, response schemas with properties.'',
      str ''Use descriptive summaries. Infer types from the code. Return ONLY valid YAML, no markdown or explanation.'']"

definition generationRequest :: "jsstring \<Rightarrow> jsstring \<Rightarrow> sourcefile list \<Rightarrow> request" where
  "generationRequest m url fs =
     \<lparr>req_model = m,
      req_messages =
        [Message System generationPrompt,
         Message User (str ''Generate an OpenAPI spec for this backend code. Base URL: '' @ url
                       @ [LF, LF] @ codeContext fs)],
      max_tokens = 16000\<rparr>"

text \<open>The \<open>catch\<close> block of the generation: report by message, exit status 1.\<close>

definition generationFailed :: "jsstring \<Rightarrow> event list \<Rightarrow> outcome" where
  "generationFailed msg ev =
     \<lparr>status = Exit 1,
      events = ev @
        [Reported (if sublist (str ''401'') msg then InvalidApiKey
                   else if sublist (str ''429'') msg then RateLimited
                   else ErrorMessage (orElse (Some msg) (str ''Unknown error'')))]\<rparr>"

text \<open>The question-and-answer gate after the write, and the end of the action.\<close>

definition offerQA :: "env \<Rightarrow> opts \<Rightarrow> user \<Rightarrow> event list \<Rightarrow> outcome" where
  "offerQA E opts U ev =
     (if \<not> yes opts then
        (if wantHelp U = Answer True then
           (let r = runQA (completions E) (model opts) (questions U)
            in \<lparr>status = (if finished r then Exit 0 else AwaitingInput),
                events = ev @ [Asked WantHelp] @ trace r\<rparr>)
         else \<lparr>status = Exit 0, events = ev @ [Asked WantHelp]\<rparr>)
      else \<lparr>status = Exit 0, events = ev\<rparr>)"

text \<open>The \<open>try\<close> block: one request, the normalised text written, then the gate.\<close>

definition generate :: "env \<Rightarrow> opts \<Rightarrow> user \<Rightarrow> sourcefile list \<Rightarrow> jsstring \<Rightarrow> jsstring
    \<Rightarrow> event list \<Rightarrow> outcome" where
  "generate E opts U fs outputFile url ev =
     (let request = generationRequest (model opts) url fs;
          ev1 = ev @ [Requested request]
      in case completions E request of
           Failure msg \<Rightarrow> generationFailed msg ev1
         | Reply text \<Rightarrow>
             (let yaml = yamlText text
              in case writeFails E outputFile of
                   Some msg \<Rightarrow> generationFailed msg ev1
                 | None \<Rightarrow> offerQA E opts U (ev1 @ [Wrote outputFile yaml])))"

text \<open>The scan; an exception of \<open>collectFiles\<close> is not caught by the action.\<close>

definition scanAndGenerate :: "env \<Rightarrow> opts \<Rightarrow> user \<Rightarrow> jsstring \<Rightarrow> node \<Rightarrow> jsstring \<Rightarrow> jsstring
    \<Rightarrow> event list \<Rightarrow> outcome" where
  "scanAndGenerate E opts U targetDir stat outputFile url ev =
     (case scan (paths E) targetDir stat of
        Inl e \<Rightarrow> \<lparr>status = Crashed e, events = ev\<rparr>
      | Inr fs \<Rightarrow>
          if fs = [] then \<lparr>status = Exit 1, events = ev @ [Reported NoSourceFiles]\<rparr>
          else generate E opts U fs outputFile url ev)"

text \<open>
  The output-path and base-URL steps: prompt when the option is missing and prompting is
  allowed, leave on cancel, fall back to the default otherwise.
\<close>

definition resolveBaseUrl :: "env \<Rightarrow> opts \<Rightarrow> user \<Rightarrow> jsstring \<Rightarrow> node \<Rightarrow> jsstring
    \<Rightarrow> event list \<Rightarrow> outcome" where
  "resolveBaseUrl E opts U targetDir stat outputFile ev =
     (if \<not> truthy (baseUrl opts) \<and> \<not> yes opts then
        (case urlInput U of
           Cancel \<Rightarrow> \<lparr>status = Exit 0, events = ev @ [Asked BaseUrl]\<rparr>
         | Answer v \<Rightarrow>
             scanAndGenerate E opts U targetDir stat outputFile
               (orElse (Some v) (str ''http://localhost:3000'')) (ev @ [Asked BaseUrl]))
      else scanAndGenerate E opts U targetDir stat outputFile
             (orElse (baseUrl opts) (str ''http://localhost:3000'')) ev)"

definition resolveOutput :: "env \<Rightarrow> opts \<Rightarrow> user \<Rightarrow> jsstring \<Rightarrow> node \<Rightarrow> event list \<Rightarrow> outcome" where
  "resolveOutput E opts U targetDir stat ev =
     (if \<not> truthy (output opts) \<and> \<not> yes opts then
        (case outputInput U of
           Cancel \<Rightarrow> \<lparr>status = Exit 0, events = ev @ [Asked OutputPath]\<rparr>
         | Answer v \<Rightarrow>
             resolveBaseUrl E opts U targetDir stat (orElse (Some v) (str ''openapi.yaml''))
               (ev @ [Asked OutputPath]))
      else resolveBaseUrl E opts U targetDir stat (orElse (output opts) (str ''openapi.yaml'')) ev)"

text \<open>
  The final validation of the target and \<open>statSync\<close> on it, once \<open>targetDir\<close> is known.
\<close>

definition validateTarget :: "env \<Rightarrow> opts \<Rightarrow> user \<Rightarrow> jsstring option \<Rightarrow> event list \<Rightarrow> outcome" where
  "validateTarget E opts U chosen ev =
     (let targetDir = orElse chosen (str ''.'')
      in if \<not> existsSync E targetDir
         then \<lparr>status = Exit 1, events = ev @ [Reported (CannotFind targetDir)]\<rparr>
         else (case filesystem E targetDir of
                 Some stat \<Rightarrow> resolveOutput E opts U targetDir stat ev
               | None \<Rightarrow> \<lparr>status = Exit 1, events = ev @ [Reported (CannotFind targetDir)]\<rparr>))"

text \<open>
  The directory step: an argument that does not exist is dropped when prompting is
  allowed; without an argument the directory prompt is shown.
\<close>

definition resolveDirectory :: "env \<Rightarrow> opts \<Rightarrow> jsstring option \<Rightarrow> user \<Rightarrow> event list \<Rightarrow> outcome" where
  "resolveDirectory E opts directory U ev =
     (let targetDir =
            (if truthy directory \<and> \<not> existsSync E (orElse directory []) \<and> \<not> yes opts
             then None else directory)
      in if \<not> truthy targetDir \<and> \<not> yes opts then
           (case dirInput U of
              Cancel \<Rightarrow> \<lparr>status = Exit 0, events = ev @ [Asked Directory]\<rparr>
            | Answer v \<Rightarrow> validateTarget E opts U (Some v) (ev @ [Asked Directory]))
         else validateTarget E opts U targetDir ev)"

text \<open>The consent step, and the check of the key that precedes everything else.\<close>

definition resolveConsent :: "env \<Rightarrow> opts \<Rightarrow> jsstring option \<Rightarrow> user \<Rightarrow> outcome" where
  "resolveConsent E opts directory U =
     (if \<not> yes opts then
        (if consent U = Cancel \<or> consent U = Answer False
         then \<lparr>status = Exit 0, events = [Asked Consent]\<rparr>
         else resolveDirectory E opts directory U [Asked Consent])
      else resolveDirectory E opts directory U [])"

definition action :: "env \<Rightarrow> opts \<Rightarrow> jsstring option \<Rightarrow> user \<Rightarrow> outcome" where
  "action E opts directory U =
     (if \<not> (truthy (apiKey opts) \<or> truthy (OPENAI_API_KEY E))
      then \<lparr>status = Exit 1, events = [Reported MissingApiKey]\<rparr>
      else resolveConsent E opts directory U)"

section \<open>Notions used in the statements\<close>

text \<open>
  The user cancels at one of the four parameter prompts. The two later prompts are not
  parameter-resolution steps.
\<close>

definition cancelled :: "user \<Rightarrow> prompt \<Rightarrow> bool" where
  "cancelled U p =
     (case p of
        Consent \<Rightarrow> consent U = Cancel
      | Directory \<Rightarrow> dirInput U = Cancel
      | OutputPath \<Rightarrow> outputInput U = Cancel
      | BaseUrl \<Rightarrow> urlInput U = Cancel
      | WantHelp \<Rightarrow> False
      | Question \<Rightarrow> False)"

text \<open>The events so far are prompts, none of which the user cancelled.\<close>

definition answeredPrompts :: "user \<Rightarrow> event list \<Rightarrow> bool" where
  "answeredPrompts U ev \<longleftrightarrow> (\<forall>e \<in> set ev. \<exists>p. e = Asked p \<and> \<not> cancelled U p)"

text \<open>
  An outcome in which a prompt was shown that the user cancels has exit status 0 and
  neither a write nor a request among its events.
\<close>

definition cleanOnCancel :: "user \<Rightarrow> outcome \<Rightarrow> bool" where
  "cleanOnCancel U out \<longleftrightarrow>
     (\<forall>p. Asked p \<in> set (events out) \<and> cancelled U p \<longrightarrow>
        status out = Exit 0 \<and> (\<forall>e \<in> set (events out). \<not> isWrite e \<and> \<not> isRequest e))"

text \<open>Events that can only occur once the four parameters are resolved.\<close>

fun laterEvent :: "event \<Rightarrow> bool" where
  "laterEvent (Asked p) = (p = WantHelp \<or> p = Question)"
| "laterEvent e = True"

section \<open>Sample inputs\<close>

text \<open>
  A stand-in for the path functions on the sample tree, the tree of the scenario
  (\<open>users.py\<close> of 40 bytes, \<open>node_modules/ignored.py\<close>, \<open>huge.py\<close> of 150,000 bytes),
  a large text file, and a service that always answers with the given text; three such
  texts.
\<close>

definition samplePaths :: pathlib where
  "samplePaths = \<lparr>join = (\<lambda>dir entry. dir @ str ''/'' @ entry),
                  relative = (\<lambda>root p. drop (length root + 1) p)\<rparr>"

definition apiTree :: "(jsstring \<times> node) list" where
  "apiTree =
     [(str ''users.py'', File 40 (str ''def users(): pass'')),
      (str ''node_modules'', Dir [(str ''ignored.py'', File 12 (str ''x = 1''))]),
      (str ''huge.py'', File 150000 (str ''big''))]"

definition fencedReply :: jsstring where
  "fencedReply = str ''```yaml'' @ [LF] @ str ''openapi: 3.0.3'' @ [LF] @ str ''```''"

definition bareFenceReply :: jsstring where
  "bareFenceReply = str ''```'' @ [LF] @ str ''openapi: 3.0.3'' @ [LF] @ str ''```''"


definition sampleEnv :: "jsstring \<Rightarrow> env" where
  "sampleEnv reply =
     \<lparr>OPENAI_API_KEY = Some (str ''sk-test''),
      filesystem = (\<lambda>p. if p = str ''api'' then Some (Dir apiTree)
                         else if p = str ''notes.txt'' then Some (File 150000 (str ''remember''))
                         else None),
      paths = samplePaths,
      writeFails = (\<lambda>p. None),
      completions = (\<lambda>r. Reply (Some reply))\<rparr>"

definition promptOpts :: opts where
  "promptOpts = \<lparr>output = None, apiKey = None, model = str ''gpt-4o-mini'', baseUrl = None,
                 yes = False\<rparr>"

definition batchOpts :: opts where
  "batchOpts = \<lparr>output = Some (str ''out.yaml''), apiKey = None, model = str ''gpt-4o-mini'',
                baseUrl = None, yes = True\<rparr>"

definition sampleUser :: user where
  "sampleUser =
     \<lparr>consent = Answer True, dirInput = Answer (str ''api''), outputInput = Cancel,
      urlInput = Answer [], wantHelp = Answer True,
      questions = [Answer (str ''What are actions?''), Answer (str ''DoNe'')]\<rparr>"

text \<open>Two completion services for the sample sessions.\<close>

definition failingService :: "request \<Rightarrow> reply" where
  "failingService r = Failure (str ''timeout'')"

definition answeringService :: "request \<Rightarrow> reply" where
  "answeringService r = Reply (Some (str ''Actions are tools.''))"

text \<open>
  The outcomes of a run without prompts: the events added to \<open>ev\<close> are at most one
  request followed by a report or by one write.
\<close>

definition batchOutcome :: "event list \<Rightarrow> outcome \<Rightarrow> bool" where
  "batchOutcome ev out \<longleftrightarrow>
     (\<exists>e. out = \<lparr>status = Crashed e, events = ev\<rparr>)
   \<or> (\<exists>r. out = \<lparr>status = Exit 1, events = ev @ [Reported r]\<rparr>)
   \<or> (\<exists>q r. out = \<lparr>status = Exit 1, events = ev @ [Requested q, Reported r]\<rparr>)
   \<or> (\<exists>q p t. out = \<lparr>status = Exit 0, events = ev @ [Requested q, Wrote p t]\<rparr>)"

text \<open>
  A directory with two entries, the name of the second holding a line feed and a fence
  (a legal file name), and the two files a scan of it returns; and two files of an
  ordinary scan, one with a fence at the start of a line of its content.
\<close>

definition lineFeedTree :: "(jsstring \<times> node) list" where
  "lineFeedTree =
     [(str ''a.py'', File 12 (str ''b.py'' @ [LF] @ fence @ [LF] @ str ''z'')),
      (str ''a.py'' @ [LF] @ fence @ [LF] @ str ''b.py'', File 1 (str ''z''))]"

definition plainEntry :: sourcefile where
  "plainEntry = \<lparr>path = str ''a.py'', content = str ''b.py'' @ [LF] @ fence @ [LF] @ str ''z''\<rparr>"

definition lineFeedEntry :: sourcefile where
  "lineFeedEntry = \<lparr>path = str ''a.py'' @ [LF] @ fence @ [LF] @ str ''b.py'', content = str ''z''\<rparr>"

definition usersFile :: sourcefile where
  "usersFile = \<lparr>path = str ''users.py'', content = str ''def users(): pass''\<rparr>"

definition docFile :: sourcefile where
  "docFile = \<lparr>path = str ''doc.py'', content = str ''x'' @ [LF] @ fence @ [LF] @ str ''y''\<rparr>"

section \<open>Properties of the fence strip\<close>

lemma rx_literals_end:
  "rxmatch (map (\<lambda>c. One [c]) lits @ [EndOfInput]) t = (if t = lits then Some [] else None)"
proof (induction lits arbitrary: t)
  case Nil
  show ?case by simp
next
  case (Cons l lits)
  show ?case by (cases t) (auto simp add: Cons.IH)
qed

lemmas rx_fence_end = rx_literals_end [of "[backtick, backtick, backtick]", simplified]
  rx_literals_end [of "[backtick, backtick]", simplified]

lemma trailing_match:
  "rxmatch trailingFence t = (if t = fence \<or> t = LF # fence then Some [] else None)"
  unfolding trailingFence_def
  by (cases t) (auto simp add: rx_fence_end fence_def)

lemma replaceFirst_trailing_append:
  "replaceFirst trailingFence (b @ fence) = (if b \<noteq> [] \<and> last b = LF then butlast b else b)"
proof (induction b)
  case Nil
  show ?case by (simp add: trailing_match fence_def)
next
  case (Cons c b)
  show ?case
  proof (cases "b = []")
    case True
    then show ?thesis by (simp add: trailing_match fence_def)
  next
    case False
    have "c # b @ fence \<noteq> fence" by (simp add: fence_def)
    moreover have "c # b @ fence \<noteq> LF # fence" using False by simp
    ultimately have "rxmatch trailingFence (c # b @ fence) = None"
      by (simp add: trailing_match)
    with Cons False show ?thesis by simp
  qed
qed

lemma replaceFirst_trailing_none:
  "\<not> sublist fence s \<Longrightarrow> replaceFirst trailingFence s = s"
proof (induction s)
  case Nil
  show ?case by (simp add: trailing_match fence_def)
next
  case (Cons c s)
  from Cons.prems have nf: "\<not> sublist fence s" and np: "\<not> prefix fence (c # s)"
    by (simp_all add: sublist_Cons_right)
  have "c # s \<noteq> fence" using np by auto
  moreover have "c # s \<noteq> LF # fence" using nf by auto
  ultimately have "rxmatch trailingFence (c # s) = None" by (simp add: trailing_match)
  with Cons.IH nf show ?case by simp
qed

lemma rx_One_SomeD:
  "rxmatch (One cs # ps) s = Some r \<Longrightarrow> \<exists>c t. s = c # t \<and> c \<in> set cs \<and> rxmatch ps t = Some r"
  by (cases s) (auto split: if_splits)

lemma leading_match_prefix:
  assumes "rxmatch leadingFence s = Some r"
  shows "prefix fence s"
proof -
  from assms obtain t1 where 1: "s = backtick # t1"
    and m1: "rxmatch (tl leadingFence) t1 = Some r"
    unfolding leadingFence_def by (auto dest!: rx_One_SomeD)
  from m1 obtain t2 where 2: "t1 = backtick # t2"
    and m2: "rxmatch (tl (tl leadingFence)) t2 = Some r"
    unfolding leadingFence_def by (auto dest!: rx_One_SomeD)
  from m2 obtain t3 where 3: "t2 = backtick # t3"
    unfolding leadingFence_def by (auto dest!: rx_One_SomeD)
  show ?thesis by (simp add: 1 2 3 fence_def)
qed

lemma replaceAtStart_leading_none:
  "\<not> sublist fence s \<Longrightarrow> replaceAtStart leadingFence s = s"
  by (cases "rxmatch leadingFence s")
     (auto simp add: replaceAtStart_def dest: leading_match_prefix)

lemma lower_y: "(if 0x41 \<le> c \<and> c \<le> 0x5A then c + 0x20 else c) = (0x79 :: jschar) \<longleftrightarrow> c = 0x79 \<or> c = 0x59"
  by auto
lemma lower_a: "(if 0x41 \<le> c \<and> c \<le> 0x5A then c + 0x20 else c) = (0x61 :: jschar) \<longleftrightarrow> c = 0x61 \<or> c = 0x41"
  by auto
lemma lower_m: "(if 0x41 \<le> c \<and> c \<le> 0x5A then c + 0x20 else c) = (0x6D :: jschar) \<longleftrightarrow> c = 0x6D \<or> c = 0x4D"
  by auto
lemma lower_l: "(if 0x41 \<le> c \<and> c \<le> 0x5A then c + 0x20 else c) = (0x6C :: jschar) \<longleftrightarrow> c = 0x6C \<or> c = 0x4C"
  by auto

lemma yamlTag_cases:
  assumes "yamlTag tag"
  obtains y a m l where "tag = [y, a, m, l]" "y \<in> {0x79, 0x59}" "a \<in> {0x61, 0x41}"
      "m \<in> {0x6D, 0x4D}" "l \<in> {0x6C, 0x4C}"
  | y m l where "tag = [y, m, l]" "y \<in> {0x79, 0x59}" "m \<in> {0x6D, 0x4D}" "l \<in> {0x6C, 0x4C}"
proof -
  from assms consider "toLowerCase tag = [0x79, 0x61, 0x6D, 0x6C]" | "toLowerCase tag = [0x79, 0x6D, 0x6C]"
    by (auto simp add: yamlTag_def str_def)
  then show thesis
  proof cases
    case 1
    then obtain y a m l where t: "tag = [y, a, m, l]"
      by (auto simp add: toLowerCase_def map_eq_Cons_conv)
    with 1 have "y \<in> {0x79, 0x59}" "a \<in> {0x61, 0x41}" "m \<in> {0x6D, 0x4D}" "l \<in> {0x6C, 0x4C}"
      using lower_y[of y] lower_a[of a] lower_m[of m] lower_l[of l]
      by (simp_all add: toLowerCase_def)
    with t show thesis by (rule that(1))
  next
    case 2
    then obtain y m l where t: "tag = [y, m, l]"
      by (auto simp add: toLowerCase_def map_eq_Cons_conv)
    with 2 have "y \<in> {0x79, 0x59}" "m \<in> {0x6D, 0x4D}" "l \<in> {0x6C, 0x4C}"
      using lower_y[of y] lower_m[of m] lower_l[of l]
      by (simp_all add: toLowerCase_def)
    with t show thesis by (rule that(2))
  qed
qed

lemma leading_match_tag:
  assumes "yamlTag tag"
  shows "rxmatch leadingFence (fence @ tag @ rest) =
           Some (case rest of [] \<Rightarrow> [] | c # cs \<Rightarrow> if c = LF then cs else rest)"
  using assms
proof (cases rule: yamlTag_cases)
  case (1 y a m l)
  then show ?thesis
    by (cases rest) (auto simp add: leadingFence_def fence_def)
next
  case (2 y m l)
  then show ?thesis
    by (cases rest) (auto simp add: leadingFence_def fence_def)
qed

lemma trim_Cons_ws: "isWhiteSpace c \<Longrightarrow> trim (c # s) = trim s"
  by (simp add: trim_def)

lemma trim_snoc_ws: "isWhiteSpace c \<Longrightarrow> trim (s @ [c]) = trim s"
proof (induction s)
  case Nil
  then show ?case by (simp add: trim_def)
next
  case (Cons a s)
  show ?case
  proof (cases "isWhiteSpace a")
    case True
    with Cons show ?thesis by (simp add: trim_def)
  next
    case False
    with Cons.prems show ?thesis by (simp add: trim_def)
  qed
qed

lemma isWhiteSpace_LF: "isWhiteSpace LF"
  by (simp add: isWhiteSpace_def)

lemma sublist_trim: "sublist (trim s) s"
proof -
  have "suffix (dropWhile isWhiteSpace s) s"
    by (rule suffix_dropWhile)
  moreover have "prefix (trim s) (dropWhile isWhiteSpace s)"
  proof -
    have "suffix (dropWhile isWhiteSpace (rev (dropWhile isWhiteSpace s))) (rev (dropWhile isWhiteSpace s))"
      by (rule suffix_dropWhile)
    then show ?thesis
      by (simp add: trim_def suffix_to_prefix)
  qed
  ultimately show ?thesis
    by (meson prefix_imp_sublist suffix_imp_sublist sublist_order.order_trans)
qed



lemma leading_none_append_fence:
  assumes "\<not> sublist fence b"
  shows "rxmatch leadingFence (b @ fence) = None"
proof (cases "rxmatch leadingFence (b @ fence)")
  case None
  then show ?thesis .
next
  case (Some r)
  have "\<exists>t. b @ fence = fence @ t \<and> rxmatch (drop 3 leadingFence) t = Some r"
    using Some unfolding leadingFence_def fence_def
    by (auto dest!: rx_One_SomeD)
  then obtain t where t: "b @ fence = fence @ t" and m: "rxmatch (drop 3 leadingFence) t = Some r"
    by blast
  from m obtain c t' where c: "t = c # t'" "c \<in> {0x79, 0x59}"
    unfolding leadingFence_def by (auto dest!: rx_One_SomeD)
  have nb: "\<not> prefix fence b" using assms by (meson prefix_imp_sublist)
  from t c nb have False
    by (cases b rule: rev_cases; auto simp add: fence_def append_eq_Cons_conv Cons_eq_append_conv)
  then show ?thesis ..
qed

lemma yamlText_wrapped:
  assumes lead: "lead = [] \<or> (\<exists>tag. yamlTag tag \<and> lead = fence @ tag)"
    and trail: "trail = [] \<or> trail = fence"
    and body: "\<not> sublist fence body"
  shows "yamlText (Some (lead @ body @ trail)) = trim body"
proof -
  define body' where "body' = replaceAtStart leadingFence (lead @ body @ trail)"
  have "\<exists>b. body' = b @ trail \<and> trim b = trim body \<and> \<not> sublist fence b"
  proof (cases "lead = []")
    case True
    have "replaceAtStart leadingFence (body @ trail) = body @ trail"
    proof (cases "trail = []")
      case True
      with body show ?thesis by (simp add: replaceAtStart_leading_none)
    next
      case False
      with trail body show ?thesis
        by (simp add: replaceAtStart_def leading_none_append_fence)
    qed
    with True body show ?thesis by (auto simp add: body'_def)
  next
    case False
    with lead obtain tag where tag: "yamlTag tag" "lead = fence @ tag" by blast
    show ?thesis
    proof (cases body)
      case Nil
      with tag trail show ?thesis
        using leading_match_tag[OF tag(1), of trail]
        by (auto simp add: body'_def replaceAtStart_def fence_def)
    next
      case (Cons c cs)
      have "\<not> sublist fence cs" using body Cons by (simp add: sublist_Cons_right)
      with tag Cons body show ?thesis
        using leading_match_tag[OF tag(1), of "body @ trail"]
        by (auto simp add: body'_def replaceAtStart_def trim_Cons_ws isWhiteSpace_LF)
    qed
  qed
  then obtain b where b: "body' = b @ trail" "trim b = trim body" "\<not> sublist fence b"
    by blast
  have "trim (replaceFirst trailingFence (b @ trail)) = trim b"
  proof (cases "trail = []")
    case True
    with b show ?thesis by (simp add: replaceFirst_trailing_none)
  next
    case False
    with trail have tf: "trail = fence" by simp
    show ?thesis
    proof (cases "b \<noteq> [] \<and> last b = LF")
      case True
      then have "b = butlast b @ [LF]" by (metis append_butlast_last_id)
      then have "trim b = trim (butlast b)"
        using trim_snoc_ws[OF isWhiteSpace_LF, of "butlast b"] by simp
      with True tf show ?thesis by (simp add: replaceFirst_trailing_append)
    next
      case False
      with tf show ?thesis by (auto simp add: replaceFirst_trailing_append)
    qed
  qed
  with b show ?thesis by (simp add: yamlText_def body'_def)
qed

lemma no_fence_trim: "\<not> sublist fence s \<Longrightarrow> \<not> sublist fence (trim s)"
  using sublist_trim sublist_order.order_trans by blast




section \<open>Properties of the question-and-answer loop\<close>

lemma qaTurn_Break:
  "question = Cancel \<or> question = Answer [] \<or> (\<exists>q. question = Answer q \<and> toLowerCase q = str ''done'')
   \<Longrightarrow> qaTurn openai m messages question = Break"
  by (auto simp add: qaTurn_def)

lemma qaTurn_Completed:
  "qaTurn openai m messages question = Completed h ev \<Longrightarrow>
     \<exists>q a. question = Answer q \<and> h = messages @ [Message User q, Message Assistant a] \<and>
       ev = [Requested \<lparr>req_model = m, req_messages = messages @ [Message User q], max_tokens = 300\<rparr>]"
  by (auto simp add: qaTurn_def Let_def split: answer.splits if_splits reply.splits)

lemma qaTurn_Failed:
  "qaTurn openai m messages question = Failed h ev \<Longrightarrow>
     \<exists>q r. question = Answer q \<and> h = messages @ [Message User q] \<and>
       ev = [Requested \<lparr>req_model = m, req_messages = messages @ [Message User q], max_tokens = 300\<rparr>,
             Reported r]"
  by (auto simp add: qaTurn_def Let_def split: answer.splits if_splits reply.splits)

lemma qaLoop_hd_trace: "\<exists>rest. trace (qaLoop openai m messages qs) = Asked Question # rest"
  by (cases qs) (auto simp add: Let_def split: turn.splits)

lemma qaLoop_trace_later:
  "e \<in> set (trace (qaLoop openai m messages qs)) \<Longrightarrow> laterEvent e \<and> \<not> isWrite e"
proof (induction qs arbitrary: messages)
  case Nil
  then show ?case by simp
next
  case (Cons question later)
  show ?case
  proof (cases "qaTurn openai m messages question")
    case Break
    with Cons.prems show ?thesis by simp
  next
    case (Completed h ev)
    from qaTurn_Completed[OF this] obtain r where "ev = [Requested r]" by blast
    with Cons Completed show ?thesis by (auto simp add: Let_def)
  next
    case (Failed h ev)
    from qaTurn_Failed[OF this] obtain r x where "ev = [Requested r, Reported x]" by blast
    with Cons Failed show ?thesis by (auto simp add: Let_def)
  qed
qed

text \<open>
  Claim C5. When the question prompt returns the cancel symbol, the empty string, or a
  string whose lower-case form is \<open>done\<close>, the loop ends at once: the session is
  finished, the history is unchanged, and the only event is the prompt itself, so no
  request is issued for this turn, and the later inputs are never read.
\<close>

theorem qa_stops_without_request:
  assumes "question = Cancel \<or> question = Answer [] \<or>
           (\<exists>q. question = Answer q \<and> toLowerCase q = str ''done'')"
  shows "qaLoop openai m messages (question # later) =
           \<lparr>finished = True, history = messages, trace = [Asked Question]\<rparr>"
  using qaTurn_Break[OF assms, of openai m messages] by simp

theorem qa_stops_without_request_witness:
  "toLowerCase (str ''DoNe'') = str ''done'' \<and>
   qaLoop answeringService (str ''gpt-4o-mini'') [Message System qaSystemPrompt]
      [Answer (str ''DoNe''), Answer (str ''What are actions?'')] =
     \<lparr>finished = True, history = [Message System qaSystemPrompt], trace = [Asked Question]\<rparr>"
proof -
  have d: "toLowerCase (str ''DoNe'') = str ''done''"
    by (simp add: toLowerCase_def str_def)
  then have "Answer (str ''DoNe'') = Cancel \<or> Answer (str ''DoNe'') = Answer [] \<or>
           (\<exists>q. Answer (str ''DoNe'') = Answer q \<and> toLowerCase q = str ''done'')"
    by blast
  from qa_stops_without_request[OF this] d show ?thesis by simp
qed

lemma qaLoop_history_prefix: "prefix messages (history (qaLoop openai m messages qs))"
proof (induction qs arbitrary: messages)
  case Nil
  show ?case by simp
next
  case (Cons question later)
  show ?case
  proof (cases "qaTurn openai m messages question")
    case Break
    then show ?thesis by simp
  next
    case (Completed h ev)
    from qaTurn_Completed[OF this] have "prefix messages h" by auto
    with Cons[of h] Completed show ?thesis by (auto simp add: Let_def intro: prefix_order.order_trans)
  next
    case (Failed h ev)
    from qaTurn_Failed[OF this] have "prefix messages h" by auto
    with Cons[of h] Failed show ?thesis by (auto simp add: Let_def intro: prefix_order.order_trans)
  qed
qed

text \<open>
  Claim C6. When the request of a turn fails, the failure is reported, the loop goes on
  with the next question prompt, and the run ends as the loop continued from the history
  that still holds the user message of the failed turn.
\<close>

theorem qa_failure_continues:
  assumes "q \<noteq> []" and "toLowerCase q \<noteq> str ''done''"
    and "openai \<lparr>req_model = m, req_messages = messages @ [Message User q], max_tokens = 300\<rparr>
           = Failure msg"
  shows "trace (qaLoop openai m messages (Answer q # later)) =
           Asked Question #
           Requested \<lparr>req_model = m, req_messages = messages @ [Message User q], max_tokens = 300\<rparr> #
           Reported (ErrorMessage (orElse (Some msg) (str ''Unknown error''))) #
           trace (qaLoop openai m (messages @ [Message User q]) later)
       \<and> (\<exists>rest. trace (qaLoop openai m (messages @ [Message User q]) later) = Asked Question # rest)
       \<and> finished (qaLoop openai m messages (Answer q # later)) =
           finished (qaLoop openai m (messages @ [Message User q]) later)
       \<and> history (qaLoop openai m messages (Answer q # later)) =
           history (qaLoop openai m (messages @ [Message User q]) later)
       \<and> prefix (messages @ [Message User q]) (history (qaLoop openai m messages (Answer q # later)))"
proof -
  have t: "qaTurn openai m messages (Answer q) =
      Failed (messages @ [Message User q])
        [Requested \<lparr>req_model = m, req_messages = messages @ [Message User q], max_tokens = 300\<rparr>,
         Reported (ErrorMessage (orElse (Some msg) (str ''Unknown error'')))]"
    using assms by (simp add: qaTurn_def Let_def)
  show ?thesis
    using qaLoop_hd_trace[of openai m "messages @ [Message User q]" later]
      qaLoop_history_prefix[of "messages @ [Message User q]" openai m later]
    by (simp add: t Let_def)
qed

theorem qa_failure_continues_witness:
  "str ''What are actions?'' \<noteq> [] \<and> toLowerCase (str ''What are actions?'') \<noteq> str ''done'' \<and>
   failingService \<lparr>req_model = str ''gpt-4o-mini'',
       req_messages = [Message System qaSystemPrompt] @ [Message User (str ''What are actions?'')],
       max_tokens = 300\<rparr> = Failure (str ''timeout'') \<and>
   trace (qaLoop failingService (str ''gpt-4o-mini'') [Message System qaSystemPrompt]
            [Answer (str ''What are actions?''), Answer (str ''done'')]) =
     [Asked Question,
      Requested \<lparr>req_model = str ''gpt-4o-mini'',
        req_messages = [Message System qaSystemPrompt, Message User (str ''What are actions?'')],
        max_tokens = 300\<rparr>,
      Reported (ErrorMessage (str ''timeout'')),
      Asked Question] \<and>
   finished (qaLoop failingService (str ''gpt-4o-mini'') [Message System qaSystemPrompt]
            [Answer (str ''What are actions?''), Answer (str ''done'')]) \<and>
   history (qaLoop failingService (str ''gpt-4o-mini'') [Message System qaSystemPrompt]
            [Answer (str ''What are actions?''), Answer (str ''done'')]) =
     [Message System qaSystemPrompt, Message User (str ''What are actions?'')]"
proof -
  have a: "str ''What are actions?'' \<noteq> []" by (simp add: str_def)
  have b: "toLowerCase (str ''What are actions?'') \<noteq> str ''done''" by (simp add: str_def toLowerCase_def)
  have c: "failingService \<lparr>req_model = str ''gpt-4o-mini'',
       req_messages = [Message System qaSystemPrompt] @ [Message User (str ''What are actions?'')],
       max_tokens = 300\<rparr> = Failure (str ''timeout'')"
    by (simp add: failingService_def)
  have "qaTurn failingService (str ''gpt-4o-mini'')
             [Message System qaSystemPrompt, Message User (str ''What are actions?'')]
             (Answer (str ''done'')) = Break"
    by (rule qaTurn_Break) (simp add: toLowerCase_def str_def)
  then have d: "qaLoop failingService (str ''gpt-4o-mini'')
             [Message System qaSystemPrompt, Message User (str ''What are actions?'')]
             [Answer (str ''done'')] =
          \<lparr>finished = True,
           history = [Message System qaSystemPrompt, Message User (str ''What are actions?'')],
           trace = [Asked Question]\<rparr>"
    by simp
  have e: "orElse (Some (str ''timeout'')) (str ''Unknown error'') = str ''timeout''"
    by (simp add: str_def)
  from qa_failure_continues[where q = "str ''What are actions?''" and openai = failingService
      and m = "str ''gpt-4o-mini''" and messages = "[Message System qaSystemPrompt]"
      and msg = "str ''timeout''" and later = "[Answer (str ''done'')]", OF a b c] a b c
  show ?thesis by (simp add: d e del: qaLoop.simps)
qed

lemma qaStates_hd: "\<exists>rest. qaStates openai m messages qs = messages # rest"
  by (cases qs) simp_all

lemma qaStates_prefix: "h \<in> set (qaStates openai m messages qs) \<Longrightarrow> prefix messages h"
proof (induction qs arbitrary: messages)
  case Nil
  then show ?case by simp
next
  case (Cons question later)
  show ?case
  proof (cases "qaTurn openai m messages question")
    case Break
    with Cons.prems show ?thesis by simp
  next
    case (Completed h' ev)
    from qaTurn_Completed[OF this] have "prefix messages h'" by auto
    with Cons Completed show ?thesis by (auto intro: prefix_order.order_trans)
  next
    case (Failed h' ev)
    from qaTurn_Failed[OF this] have "prefix messages h'" by auto
    with Cons Failed show ?thesis by (auto intro: prefix_order.order_trans)
  qed
qed

lemma qaStates_monotone:
  "i \<le> j \<Longrightarrow> j < length (qaStates openai m messages qs) \<Longrightarrow>
     prefix (qaStates openai m messages qs ! i) (qaStates openai m messages qs ! j)"
proof (induction qs arbitrary: messages i j)
  case Nil
  then show ?case by simp
next
  case (Cons question later)
  show ?case
  proof (cases i)
    case 0
    have "qaStates openai m messages (question # later) ! j \<in> set (qaStates openai m messages (question # later))"
      using Cons.prems(2) by (rule nth_mem)
    from qaStates_prefix[OF this] 0 show ?thesis by simp
  next
    case (Suc i')
    with Cons.prems obtain j' where j: "j = Suc j'" "i' \<le> j'" by (cases j) auto
    show ?thesis
    proof (cases "qaTurn openai m messages question")
      case Break
      with Cons.prems j show ?thesis by simp
    next
      case (Completed h' ev)
      with Cons.prems j Suc Cons.IH[of i' j' h'] show ?thesis by simp
    next
      case (Failed h' ev)
      with Cons.prems j Suc Cons.IH[of i' j' h'] show ?thesis by simp
    qed
  qed
qed

lemma qaStates_completed_turn:
  "Suc i < length (qaStates openai m messages qs) \<Longrightarrow>
   qaTurn openai m (qaStates openai m messages qs ! i) (qs ! i) = Completed h ev \<Longrightarrow>
     qaStates openai m messages qs ! Suc i = h \<and>
     (\<exists>q a. h = qaStates openai m messages qs ! i @ [Message User q, Message Assistant a])"
proof (induction qs arbitrary: messages i)
  case Nil
  then show ?case by simp
next
  case (Cons question later)
  show ?case
  proof (cases i)
    case 0
    with Cons.prems have c: "qaTurn openai m messages question = Completed h ev" by simp
    from qaStates_hd[of openai m h later] obtain rest where "qaStates openai m h later = h # rest" ..
    with c 0 qaTurn_Completed[OF c] show ?thesis by auto
  next
    case (Suc i')
    show ?thesis
    proof (cases "qaTurn openai m messages question")
      case Break
      with Cons.prems Suc show ?thesis by simp
    next
      case (Completed h' ev')
      with Cons.prems Suc Cons.IH[of i' h'] show ?thesis by simp
    next
      case (Failed h' ev')
      with Cons.prems Suc Cons.IH[of i' h'] show ?thesis by simp
    qed
  qed
qed

lemma qaStates_last: "history (qaLoop openai m messages qs) = last (qaStates openai m messages qs)"
proof (induction qs arbitrary: messages)
  case Nil
  show ?case by simp
next
  case (Cons question later)
  show ?case
  proof (cases "qaTurn openai m messages question")
    case Break
    then show ?thesis by simp
  next
    case (Completed h' ev)
    from qaStates_hd[of openai m h' later] obtain rest where "qaStates openai m h' later = h' # rest" ..
    with Completed Cons[of h'] show ?thesis by (simp add: Let_def)
  next
    case (Failed h' ev)
    from qaStates_hd[of openai m h' later] obtain rest where "qaStates openai m h' later = h' # rest" ..
    with Failed Cons[of h'] show ?thesis by (simp add: Let_def)
  qed
qed

lemma qaLoop_requests_extend:
  "Requested r \<in> set (trace (qaLoop openai m messages qs)) \<Longrightarrow> prefix messages (req_messages r)"
proof (induction qs arbitrary: messages)
  case Nil
  then show ?case by simp
next
  case (Cons question later)
  show ?case
  proof (cases "qaTurn openai m messages question")
    case Break
    with Cons.prems show ?thesis by simp
  next
    case (Completed h ev)
    from qaTurn_Completed[OF this] obtain q a where
      h: "h = messages @ [Message User q, Message Assistant a]"
      and ev: "ev = [Requested \<lparr>req_model = m, req_messages = messages @ [Message User q],
                                 max_tokens = 300\<rparr>]"
      by blast
    from Cons.prems Completed ev
    consider "r = \<lparr>req_model = m, req_messages = messages @ [Message User q], max_tokens = 300\<rparr>"
      | "Requested r \<in> set (trace (qaLoop openai m h later))"
      by (auto simp add: Let_def)
    then show ?thesis
    proof cases
      case 1
      then show ?thesis by simp
    next
      case 2
      from Cons.IH[OF this] h show ?thesis by (auto simp add: prefix_def)
    qed
  next
    case (Failed h ev)
    from qaTurn_Failed[OF this] obtain q x where
      h: "h = messages @ [Message User q]"
      and ev: "ev = [Requested \<lparr>req_model = m, req_messages = messages @ [Message User q],
                                 max_tokens = 300\<rparr>, Reported x]"
      by blast
    from Cons.prems Failed ev
    consider "r = \<lparr>req_model = m, req_messages = messages @ [Message User q], max_tokens = 300\<rparr>"
      | "Requested r \<in> set (trace (qaLoop openai m h later))"
      by (auto simp add: Let_def)
    then show ?thesis
    proof cases
      case 1
      then show ?thesis by simp
    next
      case 2
      from Cons.IH[OF this] h show ?thesis by (auto simp add: prefix_def)
    qed
  qed
qed

text \<open>
  Claim C7. In every state of a session the history starts with the fixed system
  message; every earlier state of the history is a prefix of every later one, so nothing
  is removed or reordered; a completed turn appends exactly the user question and the
  assistant answer; the final history is the last of these states; and every request of
  the session carries a history that starts with the system message.
\<close>

theorem history_invariant:
  "(\<forall>h \<in> set (qaStates openai m [Message System qaSystemPrompt] qs).
      h \<noteq> [] \<and> hd h = Message System qaSystemPrompt)
   \<and> (\<forall>i j. i \<le> j \<and> j < length (qaStates openai m [Message System qaSystemPrompt] qs) \<longrightarrow>
         prefix (qaStates openai m [Message System qaSystemPrompt] qs ! i)
                (qaStates openai m [Message System qaSystemPrompt] qs ! j))
   \<and> (\<forall>i h ev. Suc i < length (qaStates openai m [Message System qaSystemPrompt] qs) \<and>
         qaTurn openai m (qaStates openai m [Message System qaSystemPrompt] qs ! i) (qs ! i) = Completed h ev \<longrightarrow>
         qaStates openai m [Message System qaSystemPrompt] qs ! Suc i = h \<and>
         (\<exists>q a. h = qaStates openai m [Message System qaSystemPrompt] qs ! i
                       @ [Message User q, Message Assistant a]))
   \<and> history (runQA openai m qs) = last (qaStates openai m [Message System qaSystemPrompt] qs)
   \<and> (\<forall>r. Requested r \<in> set (trace (runQA openai m qs)) \<longrightarrow>
         prefix [Message System qaSystemPrompt] (req_messages r))"
proof -
  have "h \<noteq> [] \<and> hd h = Message System qaSystemPrompt"
    if "h \<in> set (qaStates openai m [Message System qaSystemPrompt] qs)" for h
    using qaStates_prefix[OF that] by (auto simp add: prefix_def)
  then show ?thesis
    using qaStates_monotone[of _ _ openai m "[Message System qaSystemPrompt]" qs]
      qaStates_completed_turn[of _ openai m "[Message System qaSystemPrompt]" qs]
      qaStates_last[of openai m "[Message System qaSystemPrompt]" qs]
      qaLoop_requests_extend[of _ openai m "[Message System qaSystemPrompt]" qs]
    by (simp add: runQA_def)
qed

theorem history_invariant_witness:
  "qaStates answeringService (str ''gpt-4o-mini'') [Message System qaSystemPrompt]
      [Answer (str ''What are actions?''), Answer (str ''done'')] =
     [[Message System qaSystemPrompt],
      [Message System qaSystemPrompt, Message User (str ''What are actions?''),
       Message Assistant (str ''Actions are tools.'')]] \<and>
   hd [Message System qaSystemPrompt, Message User (str ''What are actions?''),
       Message Assistant (str ''Actions are tools.'')] = Message System qaSystemPrompt \<and>
   prefix [Message System qaSystemPrompt]
     [Message System qaSystemPrompt, Message User (str ''What are actions?''),
      Message Assistant (str ''Actions are tools.'')] \<and>
   history (runQA answeringService (str ''gpt-4o-mini'')
              [Answer (str ''What are actions?''), Answer (str ''done'')]) =
     [Message System qaSystemPrompt, Message User (str ''What are actions?''),
      Message Assistant (str ''Actions are tools.'')]"
proof -
  have t1: "qaTurn answeringService (str ''gpt-4o-mini'') [Message System qaSystemPrompt]
              (Answer (str ''What are actions?'')) =
            Completed [Message System qaSystemPrompt, Message User (str ''What are actions?''),
                       Message Assistant (str ''Actions are tools.'')]
              [Requested \<lparr>req_model = str ''gpt-4o-mini'',
                 req_messages = [Message System qaSystemPrompt, Message User (str ''What are actions?'')],
                 max_tokens = 300\<rparr>]"
    by (simp add: qaTurn_def answeringService_def toLowerCase_def str_def Let_def)
  have t2: "qaTurn answeringService (str ''gpt-4o-mini'')
              [Message System qaSystemPrompt, Message User (str ''What are actions?''),
               Message Assistant (str ''Actions are tools.'')] (Answer (str ''done'')) = Break"
    by (rule qaTurn_Break) (simp add: toLowerCase_def str_def)
  have st: "qaStates answeringService (str ''gpt-4o-mini'') [Message System qaSystemPrompt]
      [Answer (str ''What are actions?''), Answer (str ''done'')] =
     [[Message System qaSystemPrompt],
      [Message System qaSystemPrompt, Message User (str ''What are actions?''),
       Message Assistant (str ''Actions are tools.'')]]"
    by (simp add: t1 t2)
  from history_invariant[of answeringService "str ''gpt-4o-mini''"
      "[Answer (str ''What are actions?''), Answer (str ''done'')]"]
  show ?thesis unfolding st by simp
qed

section \<open>Properties of the action\<close>

lemma offerQA_events:
  "\<exists>new. events (offerQA E opts U ev) = ev @ new \<and> (\<forall>e \<in> set new. laterEvent e \<and> \<not> isWrite e)"
  by (auto simp add: offerQA_def runQA_def Let_def dest: qaLoop_trace_later)

lemma offerQA_yes: "yes opts \<Longrightarrow> offerQA E opts U ev = \<lparr>status = Exit 0, events = ev\<rparr>"
  by (simp add: offerQA_def)

lemma generationFailed_events:
  "\<exists>r. generationFailed msg ev = \<lparr>status = Exit 1, events = ev @ [Reported r]\<rparr>"
  by (simp add: generationFailed_def)

lemma generate_cases:
  "(\<exists>r. generate E opts U fs outputFile url ev =
          \<lparr>status = Exit 1, events = ev @ [Requested (generationRequest (model opts) url fs), Reported r]\<rparr>)
   \<or> (\<exists>reply. completions E (generationRequest (model opts) url fs) = Reply reply \<and>
        writeFails E outputFile = None \<and>
        generate E opts U fs outputFile url ev =
          offerQA E opts U (ev @ [Requested (generationRequest (model opts) url fs),
                                   Wrote outputFile (yamlText reply)]))"
proof (cases "completions E (generationRequest (model opts) url fs)")
  case (Failure msg)
  then show ?thesis
    using generationFailed_events[of msg "ev @ [Requested (generationRequest (model opts) url fs)]"]
    by (auto simp add: generate_def Let_def)
next
  case (Reply reply)
  show ?thesis
  proof (cases "writeFails E outputFile")
    case None
    with Reply show ?thesis by (simp add: generate_def Let_def)
  next
    case (Some msg)
    with Reply show ?thesis
      using generationFailed_events[of msg "ev @ [Requested (generationRequest (model opts) url fs)]"]
      by (auto simp add: generate_def Let_def)
  qed
qed

lemma generate_events:
  "\<exists>new. events (generate E opts U fs outputFile url ev) = ev @ new \<and> (\<forall>e \<in> set new. laterEvent e)"
proof -
  let ?rq = "Requested (generationRequest (model opts) url fs)"
  from generate_cases[of E opts U fs outputFile url ev] show ?thesis
  proof (elim disjE exE conjE)
    fix r
    assume "generate E opts U fs outputFile url ev = \<lparr>status = Exit 1, events = ev @ [?rq, Reported r]\<rparr>"
    then have "events (generate E opts U fs outputFile url ev) = ev @ [?rq, Reported r]" by simp
    then show ?thesis by auto
  next
    fix reply
    assume g: "generate E opts U fs outputFile url ev =
                 offerQA E opts U (ev @ [?rq, Wrote outputFile (yamlText reply)])"
    from offerQA_events[of E opts U "ev @ [?rq, Wrote outputFile (yamlText reply)]"]
    obtain new where n: "events (offerQA E opts U (ev @ [?rq, Wrote outputFile (yamlText reply)]))
                          = (ev @ [?rq, Wrote outputFile (yamlText reply)]) @ new"
      and l: "\<forall>e \<in> set new. laterEvent e \<and> \<not> isWrite e" by blast
    have "events (generate E opts U fs outputFile url ev)
            = ev @ ([?rq, Wrote outputFile (yamlText reply)] @ new)"
      using g n by simp
    moreover have "\<forall>e \<in> set ([?rq, Wrote outputFile (yamlText reply)] @ new). laterEvent e"
      using l by auto
    ultimately show ?thesis by blast
  qed
qed

lemma scanAndGenerate_events:
  "\<exists>new. events (scanAndGenerate E opts U targetDir stat outputFile url ev) = ev @ new
         \<and> (\<forall>e \<in> set new. laterEvent e)"
proof (cases "scan (paths E) targetDir stat")
  case (Inl e)
  then show ?thesis by (simp add: scanAndGenerate_def)
next
  case (Inr fs)
  show ?thesis
  proof (cases "fs = []")
    case True
    with Inr show ?thesis by (simp add: scanAndGenerate_def)
  next
    case False
    with Inr show ?thesis
      using generate_events[of E opts U fs outputFile url ev] by (simp add: scanAndGenerate_def)
  qed
qed

lemma later_not_cancelled: "laterEvent (Asked p) \<Longrightarrow> \<not> cancelled U p"
  by (auto simp add: cancelled_def)

lemma scanAndGenerate_clean:
  assumes "answeredPrompts U ev"
  shows "cleanOnCancel U (scanAndGenerate E opts U targetDir stat outputFile url ev)"
proof -
  from scanAndGenerate_events[of E opts U targetDir stat outputFile url ev]
  obtain new where n: "events (scanAndGenerate E opts U targetDir stat outputFile url ev) = ev @ new"
    and l: "\<forall>e \<in> set new. laterEvent e" by blast
  have "\<not> cancelled U p" if "Asked p \<in> set (ev @ new)" for p
  proof (cases "Asked p \<in> set ev")
    case True
    with assms show ?thesis by (auto simp add: answeredPrompts_def)
  next
    case False
    with that have "Asked p \<in> set new" by simp
    with l show ?thesis by (auto dest: later_not_cancelled)
  qed
  then show ?thesis by (auto simp add: cleanOnCancel_def n)
qed

lemma answeredPrompts_snoc:
  "answeredPrompts U ev \<Longrightarrow> \<not> cancelled U p \<Longrightarrow> answeredPrompts U (ev @ [Asked p])"
  by (simp add: answeredPrompts_def)

lemma cancelled_exit_clean:
  "answeredPrompts U ev \<Longrightarrow> cleanOnCancel U \<lparr>status = Exit 0, events = ev @ [Asked p]\<rparr>"
  by (auto simp add: answeredPrompts_def cleanOnCancel_def)

lemma failed_exit_clean:
  "answeredPrompts U ev \<Longrightarrow> cleanOnCancel U \<lparr>status = st, events = ev @ [Reported r]\<rparr>"
  by (auto simp add: answeredPrompts_def cleanOnCancel_def)

lemma resolveBaseUrl_clean:
  assumes "answeredPrompts U ev"
  shows "cleanOnCancel U (resolveBaseUrl E opts U targetDir stat outputFile ev)"
proof (cases "\<not> truthy (baseUrl opts) \<and> \<not> yes opts")
  case False
  with assms show ?thesis
    by (auto simp add: resolveBaseUrl_def scanAndGenerate_clean)
next
  case True
  show ?thesis
  proof (cases "urlInput U")
    case Cancel
    with True assms show ?thesis by (simp add: resolveBaseUrl_def cancelled_exit_clean)
  next
    case (Answer v)
    then have "\<not> cancelled U BaseUrl" by (simp add: cancelled_def)
    with assms have "answeredPrompts U (ev @ [Asked BaseUrl])" by (rule answeredPrompts_snoc)
    with True Answer show ?thesis by (simp add: resolveBaseUrl_def scanAndGenerate_clean)
  qed
qed

lemma resolveOutput_clean:
  assumes "answeredPrompts U ev"
  shows "cleanOnCancel U (resolveOutput E opts U targetDir stat ev)"
proof (cases "\<not> truthy (output opts) \<and> \<not> yes opts")
  case False
  with assms show ?thesis
    by (auto simp add: resolveOutput_def resolveBaseUrl_clean)
next
  case True
  show ?thesis
  proof (cases "outputInput U")
    case Cancel
    with True assms show ?thesis by (simp add: resolveOutput_def cancelled_exit_clean)
  next
    case (Answer v)
    then have "\<not> cancelled U OutputPath" by (simp add: cancelled_def)
    with assms have "answeredPrompts U (ev @ [Asked OutputPath])" by (rule answeredPrompts_snoc)
    with True Answer show ?thesis by (simp add: resolveOutput_def resolveBaseUrl_clean)
  qed
qed

lemma validateTarget_clean:
  assumes "answeredPrompts U ev"
  shows "cleanOnCancel U (validateTarget E opts U chosen ev)"
  using assms
  by (auto simp add: validateTarget_def Let_def resolveOutput_clean failed_exit_clean
      split: option.splits)

lemma resolveDirectory_clean:
  assumes "answeredPrompts U ev"
  shows "cleanOnCancel U (resolveDirectory E opts directory U ev)"
proof -
  define targetDir where "targetDir =
     (if truthy directory \<and> \<not> existsSync E (orElse directory []) \<and> \<not> yes opts
      then None else directory)"
  show ?thesis
  proof (cases "\<not> truthy targetDir \<and> \<not> yes opts")
    case False
    with assms show ?thesis
      unfolding resolveDirectory_def Let_def targetDir_def[symmetric]
      by (auto simp add: validateTarget_clean)
  next
    case True
    show ?thesis
    proof (cases "dirInput U")
      case Cancel
      with True assms show ?thesis
        unfolding resolveDirectory_def Let_def targetDir_def[symmetric]
        by (simp add: cancelled_exit_clean)
    next
      case (Answer v)
      then have "\<not> cancelled U Directory" by (simp add: cancelled_def)
      with assms have "answeredPrompts U (ev @ [Asked Directory])" by (rule answeredPrompts_snoc)
      with True Answer show ?thesis
        unfolding resolveDirectory_def Let_def targetDir_def[symmetric]
        by (simp add: validateTarget_clean)
    qed
  qed
qed

lemma action_clean: "cleanOnCancel U (action E opts directory U)"
proof -
  have e: "answeredPrompts U []" by (simp add: answeredPrompts_def)
  have c: "cleanOnCancel U \<lparr>status = Exit 0, events = [Asked Consent]\<rparr>"
    using cancelled_exit_clean[OF e, of Consent] by simp
  have m: "cleanOnCancel U \<lparr>status = Exit 1, events = [Reported MissingApiKey]\<rparr>"
    using failed_exit_clean[OF e, of "Exit 1" MissingApiKey] by simp
  have a: "answeredPrompts U [Asked Consent]" if "consent U \<noteq> Cancel"
    using that by (simp add: answeredPrompts_def cancelled_def)
  show ?thesis
    using c m a e
    by (auto simp add: action_def resolveConsent_def resolveDirectory_clean)
qed

text \<open>
  Claim C4. Whenever one of the four parameter prompts (consent, directory, output path,
  base URL) is shown in a run and the user cancels at it, the process exits with status 0,
  and the run contains no write to the output file and no completion request.
\<close>

theorem cancel_exits_clean:
  assumes "Asked p \<in> set (events (action E opts directory U))"
    and "cancelled U p"
  shows "status (action E opts directory U) = Exit 0 \<and>
         (\<forall>e \<in> set (events (action E opts directory U)). \<not> isWrite e \<and> \<not> isRequest e)"
  using action_clean[of U E opts directory] assms unfolding cleanOnCancel_def by blast

lemma sample_cancel_run:
  "action (sampleEnv fencedReply) promptOpts (Some (str ''api'')) sampleUser =
     \<lparr>status = Exit 0, events = [Asked Consent, Asked OutputPath]\<rparr>"
  by (simp add: action_def resolveConsent_def resolveDirectory_def validateTarget_def
      resolveOutput_def existsSync_def sampleEnv_def promptOpts_def sampleUser_def str_def Let_def)

theorem cancel_exits_clean_witness:
  "Asked OutputPath \<in> set (events (action (sampleEnv fencedReply) promptOpts (Some (str ''api'')) sampleUser)) \<and>
   cancelled sampleUser OutputPath \<and>
   status (action (sampleEnv fencedReply) promptOpts (Some (str ''api'')) sampleUser) = Exit 0 \<and>
   filter (\<lambda>e. isWrite e \<or> isRequest e)
     (events (action (sampleEnv fencedReply) promptOpts (Some (str ''api'')) sampleUser)) = []"
proof -
  have a: "Asked OutputPath \<in> set (events (action (sampleEnv fencedReply) promptOpts (Some (str ''api'')) sampleUser))"
    by (simp add: sample_cancel_run)
  have c: "cancelled sampleUser OutputPath"
    by (simp add: cancelled_def sampleUser_def)
  from cancel_exits_clean[OF a c] a c show ?thesis
    by (simp add: filter_empty_conv)
qed

lemma generate_batch:
  assumes "yes opts"
  shows "batchOutcome ev (generate E opts U fs outputFile url ev)"
  using generate_cases[of E opts U fs outputFile url ev] assms
  by (auto simp add: batchOutcome_def offerQA_yes)

lemma scanAndGenerate_batch:
  assumes "yes opts"
  shows "batchOutcome ev (scanAndGenerate E opts U targetDir stat outputFile url ev)"
proof (cases "scan (paths E) targetDir stat")
  case (Inl e)
  then show ?thesis by (simp add: scanAndGenerate_def batchOutcome_def)
next
  case (Inr fs)
  show ?thesis
  proof (cases "fs = []")
    case True
    with Inr show ?thesis by (simp add: scanAndGenerate_def batchOutcome_def)
  next
    case False
    with Inr show ?thesis
      using generate_batch[OF assms, of ev E U fs outputFile url] by (simp add: scanAndGenerate_def)
  qed
qed

lemma resolveOutput_batch:
  assumes "yes opts"
  shows "batchOutcome ev (resolveOutput E opts U targetDir stat ev)"
  using assms by (simp add: resolveOutput_def resolveBaseUrl_def scanAndGenerate_batch)

lemma validateTarget_batch:
  assumes "yes opts"
  shows "batchOutcome ev (validateTarget E opts U chosen ev)"
proof (cases "existsSync E (orElse chosen (str ''.''))")
  case False
  then show ?thesis by (simp add: validateTarget_def Let_def batchOutcome_def)
next
  case True
  show ?thesis
  proof (cases "filesystem E (orElse chosen (str ''.''))")
    case None
    with True show ?thesis by (simp add: validateTarget_def Let_def batchOutcome_def)
  next
    case (Some stat)
    with True show ?thesis
      using resolveOutput_batch[OF assms] by (simp add: validateTarget_def Let_def)
  qed
qed

lemma action_batch:
  assumes "yes opts"
  shows "batchOutcome [] (action E opts directory U)"
proof (cases "truthy (apiKey opts) \<or> truthy (OPENAI_API_KEY E)")
  case False
  then show ?thesis by (simp add: action_def batchOutcome_def)
next
  case True
  with assms show ?thesis
    using validateTarget_batch[OF assms, of "[]" E U directory]
    by (simp add: action_def resolveConsent_def resolveDirectory_def Let_def)
qed

lemma sample_scan:
  "collectFiles samplePaths (str ''api'') (str ''api'') apiTree =
     Inr [\<lparr>path = str ''users.py'', content = str ''def users(): pass''\<rparr>]"
  by (simp add: apiTree_def samplePaths_def extname_def EXTENSIONS_def IGNORE_def str_def Let_def)

lemma sample_batch_run:
  "action (sampleEnv reply) batchOpts (Some (str ''api'')) sampleUser =
     \<lparr>status = Exit 0,
      events = [Requested (generationRequest (str ''gpt-4o-mini'') (str ''http://localhost:3000'')
                  [\<lparr>path = str ''users.py'', content = str ''def users(): pass''\<rparr>]),
                Wrote (str ''out.yaml'') (yamlText (Some reply))]\<rparr>"
proof -
  have e: "existsSync (sampleEnv reply) (str ''api'')"
    by (simp add: existsSync_def sampleEnv_def)
  have f: "filesystem (sampleEnv reply) (str ''api'') = Some (Dir apiTree)"
    by (simp add: sampleEnv_def)
  have s: "scan (paths (sampleEnv reply)) (str ''api'') (Dir apiTree) =
     Inr [\<lparr>path = str ''users.py'', content = str ''def users(): pass''\<rparr>]"
    by (simp add: scan_def sampleEnv_def sample_scan)
  have k: "truthy (OPENAI_API_KEY (sampleEnv reply))"
    by (simp add: sampleEnv_def str_def)
  have o: "orElse (output batchOpts) (str ''openapi.yaml'') = str ''out.yaml''"
    "orElse (baseUrl batchOpts) (str ''http://localhost:3000'') = str ''http://localhost:3000''"
    "yes batchOpts" "model batchOpts = str ''gpt-4o-mini''"
    "orElse (Some (str ''api'')) (str ''.'') = str ''api''"
    "truthy (Some (str ''api''))"
    by (simp_all add: batchOpts_def str_def)
  have c: "completions (sampleEnv reply) = (\<lambda>r. Reply (Some reply))"
    "writeFails (sampleEnv reply) = (\<lambda>p. None)"
    by (simp_all add: sampleEnv_def)
  show ?thesis
    unfolding action_def resolveConsent_def resolveDirectory_def validateTarget_def
      resolveOutput_def resolveBaseUrl_def scanAndGenerate_def generate_def offerQA_def Let_def
    by (simp add: e f s k o c)
qed

text \<open>
  Claim C9. With \<open>--yes\<close> no prompt is ever shown, so the question-and-answer session is
  neither offered nor entered; the run issues at most one completion request, and a
  write to the output file is the last event of the run, after which the process ends
  with status 0.
\<close>

theorem yes_skips_qa:
  assumes "yes opts"
  shows "(\<forall>p. Asked p \<notin> set (events (action E opts directory U)))
       \<and> length (filter isRequest (events (action E opts directory U))) \<le> 1
       \<and> (\<forall>before p t after. events (action E opts directory U) = before @ Wrote p t # after
            \<longrightarrow> after = [] \<and> status (action E opts directory U) = Exit 0)"
  using action_batch[OF assms, of E directory U] unfolding batchOutcome_def
  by (elim disjE exE) (auto simp add: append_eq_Cons_conv Cons_eq_append_conv)

theorem yes_skips_qa_witness:
  "yes batchOpts \<and>
   (\<forall>p. Asked p \<notin> set (events (action (sampleEnv fencedReply) batchOpts (Some (str ''api'')) sampleUser))) \<and>
   length (filter isRequest (events (action (sampleEnv fencedReply) batchOpts (Some (str ''api'')) sampleUser))) \<le> 1 \<and>
   (\<exists>before p t. events (action (sampleEnv fencedReply) batchOpts (Some (str ''api'')) sampleUser)
      = before @ Wrote p t # []) \<and>
   status (action (sampleEnv fencedReply) batchOpts (Some (str ''api'')) sampleUser) = Exit 0"
proof -
  have y: "yes batchOpts" by (simp add: batchOpts_def)
  from yes_skips_qa[OF y, of "sampleEnv fencedReply" "Some (str ''api'')" sampleUser] y
  show ?thesis by (simp add: sample_batch_run)
qed

section \<open>The text written to the output path\<close>

lemma generate_writes:
  assumes "completions E (generationRequest (model opts) url fs) = Reply reply"
    and "writeFails E outputFile = None"
  shows "\<exists>rest. events (generate E opts U fs outputFile url ev) =
           ev @ [Requested (generationRequest (model opts) url fs), Wrote outputFile (yamlText reply)] @ rest
         \<and> (\<forall>e \<in> set rest. \<not> isWrite e)"
proof -
  let ?ev = "ev @ [Requested (generationRequest (model opts) url fs), Wrote outputFile (yamlText reply)]"
  have "generate E opts U fs outputFile url ev = offerQA E opts U ?ev"
    using assms by (simp add: generate_def Let_def)
  moreover from offerQA_events[of E opts U ?ev]
  obtain new where "events (offerQA E opts U ?ev) = ?ev @ new" "\<forall>e \<in> set new. \<not> isWrite e"
    by blast
  ultimately show ?thesis by auto
qed

text \<open>
  Claim C1, as amended. When the completion consists of an optional leading fence marker
  tagged \<open>yaml\<close> or \<open>yml\<close> (any letter casing), a body without fence markers, and an
  optional trailing fence marker at the very end, the text written to the output path is
  the trimmed body, which contains no fence marker.
\<close>

theorem fenced_yaml_written_without_fences:
  assumes "lead = [] \<or> (\<exists>tag. yamlTag tag \<and> lead = fence @ tag)"
    and "trail = [] \<or> trail = fence"
    and "\<not> sublist fence body"
    and "completions E (generationRequest (model opts) url fs) = Reply (Some (lead @ body @ trail))"
    and "writeFails E outputFile = None"
  shows "(\<exists>rest. events (generate E opts U fs outputFile url ev) =
            ev @ [Requested (generationRequest (model opts) url fs), Wrote outputFile (trim body)] @ rest
          \<and> (\<forall>e \<in> set rest. \<not> isWrite e))
         \<and> \<not> sublist fence (trim body)"
  using generate_writes[OF assms(4,5), of U ev] yamlText_wrapped[OF assms(1,2,3)]
    no_fence_trim[OF assms(3)]
  by simp

lemma sample_body: "trim ([LF] @ str ''openapi: 3.0.3'' @ [LF]) = str ''openapi: 3.0.3''"
  by (simp add: trim_def str_def isWhiteSpace_def)

lemma sample_no_fence: "\<not> sublist fence ([LF] @ str ''openapi: 3.0.3'' @ [LF])"
  by (simp add: fence_def str_def sublist_code)

theorem fenced_yaml_written_without_fences_witness:
  "yamlTag (str ''yaml'') \<and>
   \<not> sublist fence ([LF] @ str ''openapi: 3.0.3'' @ [LF]) \<and>
   completions (sampleEnv fencedReply) (generationRequest (model batchOpts) (str ''http://localhost:3000'') [])
     = Reply (Some ((fence @ str ''yaml'') @ ([LF] @ str ''openapi: 3.0.3'' @ [LF]) @ fence)) \<and>
   writeFails (sampleEnv fencedReply) (str ''out.yaml'') = None \<and>
   (\<exists>rest. events (generate (sampleEnv fencedReply) batchOpts sampleUser [] (str ''out.yaml'') (str ''http://localhost:3000'') []) =
      [Requested (generationRequest (model batchOpts) (str ''http://localhost:3000'') []),
       Wrote (str ''out.yaml'') (str ''openapi: 3.0.3'')] @ rest) \<and>
   \<not> sublist fence (str ''openapi: 3.0.3'')"
proof -
  have t: "yamlTag (str ''yaml'')" by (simp add: yamlTag_def toLowerCase_def str_def)
  then have l: "fence @ str ''yaml'' = [] \<or> (\<exists>tag. yamlTag tag \<and> fence @ str ''yaml'' = fence @ tag)"
    by blast
  have r: "fence = [] \<or> fence = fence" by simp
  have c: "completions (sampleEnv fencedReply) (generationRequest (model batchOpts) (str ''http://localhost:3000'') [])
     = Reply (Some ((fence @ str ''yaml'') @ ([LF] @ str ''openapi: 3.0.3'' @ [LF]) @ fence))"
    by (simp add: sampleEnv_def fencedReply_def fence_def str_def)
  have w: "writeFails (sampleEnv fencedReply) (str ''out.yaml'') = None" by (simp add: sampleEnv_def)
  from fenced_yaml_written_without_fences[OF l r sample_no_fence c w, of sampleUser "[]"]
  show ?thesis using t sample_no_fence c w unfolding sample_body by auto
qed

text \<open>
  The claim as stated fails for a fence without a language tag: the leading marker stays
  in the written file.
\<close>

theorem bare_fence_is_written:
  "Wrote (str ''out.yaml'') (str ''```'' @ [LF] @ str ''openapi: 3.0.3'')
     \<in> set (events (action (sampleEnv bareFenceReply) batchOpts (Some (str ''api'')) sampleUser)) \<and>
   sublist fence (str ''```'' @ [LF] @ str ''openapi: 3.0.3'')"
proof -
  have "yamlText (Some bareFenceReply) = str ''```'' @ [LF] @ str ''openapi: 3.0.3''"
    by (simp add: yamlText_def trim_def replaceAtStart_def leadingFence_def trailingFence_def
      str_def isWhiteSpace_def bareFenceReply_def)
  moreover have "sublist fence (str ''```'' @ [LF] @ str ''openapi: 3.0.3'')"
    by (simp add: fence_def str_def)
  ultimately show ?thesis by (simp add: sample_batch_run)
qed



section \<open>Properties of the scan\<close>

lemma reaches_Cons: "reaches es names n \<Longrightarrow> reaches (e # es) names n"
  by (cases "(es, names, n)" rule: reaches.cases) auto

lemma reaches_nonempty: "reaches es names n \<Longrightarrow> names \<noteq> []"
  by auto

lemma reaches_Dir:
  "reaches sub names n \<Longrightarrow> reaches ((entry, Dir sub) # es) (entry # names) n"
  by (cases names) auto

lemma collectFiles_sound:
  "collectFiles P dir root entries = Inr files \<Longrightarrow> f \<in> set files \<Longrightarrow>
     \<exists>names bytes. reaches entries names (File bytes (content f))
       \<and> path f = relative P root (foldl (join P) dir names)
       \<and> (\<forall>name \<in> set names. \<not> prefix (str ''.'') name \<and> name \<notin> set IGNORE)
       \<and> extname (last names) \<in> set EXTENSIONS
       \<and> bytes < 100000"
proof (induction P dir root entries arbitrary: files rule: collectFiles.induct)
  case (1 P dir root)
  then show ?case by simp
next
  case (2 P dir root entry stat entries)
  let ?goal = "\<lambda>es. \<exists>names bytes. reaches es names (File bytes (content f))
       \<and> path f = relative P root (foldl (join P) dir names)
       \<and> (\<forall>name \<in> set names. \<not> prefix (str ''.'') name \<and> name \<notin> set IGNORE)
       \<and> extname (last names) \<in> set EXTENSIONS
       \<and> bytes < 100000"
  have lift: "?goal entries \<Longrightarrow> ?goal ((entry, stat) # entries)"
    using reaches_Cons by blast
  show ?case
  proof (cases "prefix (str ''.'') entry \<or> entry \<in> set IGNORE")
    case True
    with "2.prems" have "collectFiles P dir root entries = Inr files" by simp
    from "2.IH"(1)[OF True this "2.prems"(2)] show ?thesis by (rule lift)
  next
    case False
    note keep = this
    show ?thesis
    proof (cases stat)
      case Broken
      with keep "2.prems" show ?thesis by (simp add: Let_def)
    next
      case (Dir sub)
      from "2.prems"(1) keep Dir obtain found others where
        s: "collectFiles P (join P dir entry) root sub = Inr found"
        and o: "collectFiles P dir root entries = Inr others"
        and fs: "files = found @ others"
        by (auto simp add: Let_def split: sum.splits)
      from "2.prems"(2) fs consider "f \<in> set found" | "f \<in> set others" by auto
      then show ?thesis
      proof cases
        case 1
        from "2.IH"(4)[OF keep refl Dir s 1] obtain names bytes where
          n: "reaches sub names (File bytes (content f))"
          "path f = relative P root (foldl (join P) (join P dir entry) names)"
          "\<forall>name \<in> set names. \<not> prefix (str ''.'') name \<and> name \<notin> set IGNORE"
          "extname (last names) \<in> set EXTENSIONS" "bytes < 100000"
          by blast
        have "reaches ((entry, stat) # entries) (entry # names) (File bytes (content f))"
          using n(1) Dir by (simp add: reaches_Dir)
        moreover have "last (entry # names) = last names"
          using reaches_nonempty[OF n(1)] by simp
        ultimately show ?thesis using n keep
          by (intro exI[of _ "entry # names"] exI[of _ bytes]) simp
      next
        case 2
        from "2.IH"(5)[OF keep refl Dir s o 2] show ?thesis by (rule lift)
      qed
    next
      case (File bytes body)
      show ?thesis
      proof (cases "extname entry \<in> set EXTENSIONS \<and> bytes < 100000")
        case False
        with "2.prems"(1) keep File have "collectFiles P dir root entries = Inr files"
          by (simp add: Let_def)
        from "2.IH"(3)[OF keep refl File False this "2.prems"(2)] show ?thesis by (rule lift)
      next
        case True
        with "2.prems"(1) keep File obtain others where
          o: "collectFiles P dir root entries = Inr others"
          and fs: "files = \<lparr>path = relative P root (join P dir entry), content = body\<rparr> # others"
          by (auto simp add: Let_def split: sum.splits)
        from "2.prems"(2) fs consider
          "f = \<lparr>path = relative P root (join P dir entry), content = body\<rparr>" | "f \<in> set others"
          by auto
        then show ?thesis
        proof cases
          case 1
          with True keep File show ?thesis
            by (intro exI[of _ "[entry]"] exI[of _ bytes]) simp
        next
          case 2
          from "2.IH"(2)[OF keep refl File True o 2] show ?thesis by (rule lift)
        qed
      qed
    qed
  qed
qed

text \<open>
  Claim C2. Every entry that \<open>collectFiles\<close> returns is a file of the tree, reached from
  the scanned directory along entry names none of which is hidden (starts with a dot) or
  in the ignore set; the extension of its name is in the supported set and its size is
  below 100,000 bytes. A file of exactly 100,000 bytes contributes nothing to the result.
\<close>

theorem collected_files_filtered:
  assumes "collectFiles P dir root entries = Inr files" and "f \<in> set files"
  shows "(\<exists>names bytes. reaches entries names (File bytes (content f))
            \<and> path f = relative P root (foldl (join P) dir names)
            \<and> (\<forall>name \<in> set names. \<not> prefix (str ''.'') name \<and> name \<notin> set IGNORE)
            \<and> extname (last names) \<in> set EXTENSIONS
            \<and> bytes < 100000)
       \<and> collectFiles P dir root ((entry, File 100000 body) # entries)
            = collectFiles P dir root entries"
  using collectFiles_sound[OF assms] by (simp add: Let_def)

theorem collected_files_filtered_witness:
  "collectFiles samplePaths (str ''api'') (str ''api'') apiTree =
     Inr [\<lparr>path = str ''users.py'', content = str ''def users(): pass''\<rparr>] \<and>
   (\<exists>names bytes. reaches apiTree names (File bytes (str ''def users(): pass''))
      \<and> str ''users.py'' = relative samplePaths (str ''api'') (foldl (join samplePaths) (str ''api'') names)
      \<and> extname (last names) \<in> set EXTENSIONS
      \<and> bytes < 100000) \<and>
   collectFiles samplePaths (str ''api'') (str ''api'') ((str ''edge.py'', File 100000 (str ''x'')) # apiTree)
     = Inr [\<lparr>path = str ''users.py'', content = str ''def users(): pass''\<rparr>]"
proof -
  have m: "\<lparr>path = str ''users.py'', content = str ''def users(): pass''\<rparr>
     \<in> set [\<lparr>path = str ''users.py'', content = str ''def users(): pass''\<rparr>]" by simp
  from collected_files_filtered[OF sample_scan m, of "str ''edge.py''" "str ''x''"]
  show ?thesis using sample_scan by auto
qed

text \<open>
  Claim C3. When the target is a file, the scan does not call \<open>collectFiles\<close>: its
  result is the one-element list with the target path and the file's content, whatever
  the size and the extension, and this list is what the generation receives.
\<close>

theorem single_file_scanned_verbatim:
  "scan P targetDir (File bytes body) = Inr [\<lparr>path = targetDir, content = body\<rparr>]
   \<and> scanAndGenerate E opts U targetDir (File bytes body) outputFile url ev
       = generate E opts U [\<lparr>path = targetDir, content = body\<rparr>] outputFile url ev"
  by (simp add: scan_def scanAndGenerate_def)

theorem single_file_scanned_verbatim_witness:
  "filesystem (sampleEnv fencedReply) (str ''notes.txt'') = Some (File 150000 (str ''remember'')) \<and>
   scan samplePaths (str ''notes.txt'') (File 150000 (str ''remember''))
     = Inr [\<lparr>path = str ''notes.txt'', content = str ''remember''\<rparr>] \<and>
   extname (str ''notes.txt'') \<notin> set EXTENSIONS \<and>
   collectFiles samplePaths (str ''.'') (str ''.'') [(str ''notes.txt'', File 150000 (str ''remember''))]
     = Inr []"
  using single_file_scanned_verbatim[of samplePaths "str ''notes.txt''" 150000 "str ''remember''"]
  by (simp add: sampleEnv_def extname_def EXTENSIONS_def IGNORE_def str_def Let_def)

section \<open>Properties of the context\<close>

lemma codeContext_Nil: "codeContext [] = []"
  by (simp add: codeContext_def)

lemma codeContext_Cons:
  "codeContext (f # fs) = block f @ (if fs = [] then [] else [LF, LF] @ codeContext fs)"
  by (cases fs) (simp_all add: codeContext_def)

lemma split_at_first_LF:
  assumes "LF \<notin> set p1" "LF \<notin> set p2" "p1 @ LF # r1 = p2 @ LF # r2"
  shows "p1 = p2 \<and> r1 = r2"
  using assms
proof (induction p1 arbitrary: p2)
  case Nil
  then show ?case by (cases p2) auto
next
  case (Cons a p1)
  then show ?case by (cases p2) auto
qed

lemma codeContext_first_path:
  assumes "LF \<notin> set (path f)" "LF \<notin> set (path g)"
    and "codeContext (f # fs) = codeContext (g # gs)"
  shows "path f = path g"
proof -
  let ?rest = "\<lambda>h hs. fence @ [LF] @ content h @ LF # fence
                  @ (if hs = [] then [] else [LF, LF] @ codeContext hs)"
  from assms(3) have "path f @ LF # ?rest f fs = path g @ LF # ?rest g gs"
    by (simp add: codeContext_Cons block_def)
  from split_at_first_LF[OF assms(1,2) this] show ?thesis by simp
qed

lemma codeContext_order:
  assumes "distinct (map path xs)" and "\<forall>f \<in> set xs. LF \<notin> set (path f)"
    and "mset ys = mset xs" and "codeContext ys = codeContext xs"
  shows "ys = xs"
  using assms
proof (induction xs arbitrary: ys)
  case Nil
  then show ?case by simp
next
  case (Cons f fs)
  from Cons.prems(3) obtain g gs where ys: "ys = g # gs"
    by (cases ys) auto
  from Cons.prems(3) have sets: "set ys = set (f # fs)" by (metis set_mset_mset)
  with ys have gin: "g \<in> set (f # fs)" by auto
  with Cons.prems(2) have "LF \<notin> set (path g)" by blast
  moreover from Cons.prems(2) have "LF \<notin> set (path f)" by simp
  ultimately have p: "path g = path f"
    using codeContext_first_path[of g f gs fs] Cons.prems(4) ys by simp
  have fg: "g = f"
  proof (rule ccontr)
    assume "g \<noteq> f"
    with gin have "g \<in> set fs" by simp
    then have "path g \<in> set (map path fs)" by simp
    with p Cons.prems(1) show False by simp
  qed
  with Cons.prems(3) ys have m: "mset gs = mset fs" by simp
  then have e: "gs = [] \<longleftrightarrow> fs = []" by (metis mset_zero_iff)
  have "gs = fs"
  proof (cases "fs = []")
    case True
    with e show ?thesis by simp
  next
    case False
    with e have "gs \<noteq> []" by simp
    with False Cons.prems(4) ys fg have "codeContext gs = codeContext fs"
      by (simp add: codeContext_Cons)
    with Cons.IH[of gs] Cons.prems(1,2) m show ?thesis by simp
  qed
  with ys fg show ?case by simp
qed

text \<open>
  Claim C8, as amended. The context is determined by the sequence of paths and contents;
  and for a list of files with pairwise distinct paths, none of which holds a line feed,
  every reordering that changes the list changes the context, whatever the contents.
\<close>

theorem context_deterministic_and_ordered:
  "(map path ys = map path xs \<and> map content ys = map content xs
      \<longrightarrow> codeContext ys = codeContext xs)
   \<and> (distinct (map path xs) \<and> (\<forall>f \<in> set xs. LF \<notin> set (path f))
        \<and> mset ys = mset xs \<and> ys \<noteq> xs
      \<longrightarrow> codeContext ys \<noteq> codeContext xs)"
proof (intro conjI impI)
  assume "map path ys = map path xs \<and> map content ys = map content xs"
  then have "map (\<lambda>f. (path f, content f)) ys = map (\<lambda>f. (path f, content f)) xs"
    by (simp add: list_eq_iff_nth_eq)
  moreover have "inj (\<lambda>f :: sourcefile. (path f, content f))"
    by (rule injI) simp
  ultimately have "ys = xs" by (simp add: inj_map_eq_map)
  then show "codeContext ys = codeContext xs" by simp
next
  assume a: "distinct (map path xs) \<and> (\<forall>f \<in> set xs. LF \<notin> set (path f))
        \<and> mset ys = mset xs \<and> ys \<noteq> xs"
  with codeContext_order[of xs ys] show "codeContext ys \<noteq> codeContext xs" by blast
qed

theorem context_deterministic_and_ordered_witness:
  "distinct (map path [usersFile, docFile]) \<and>
   LF \<notin> set (path usersFile) \<and> LF \<notin> set (path docFile) \<and>
   sublist (LF # fence) (content docFile) \<and>
   mset [docFile, usersFile] = mset [usersFile, docFile] \<and>
   [docFile, usersFile] \<noteq> [usersFile, docFile] \<and>
   codeContext [docFile, usersFile] \<noteq> codeContext [usersFile, docFile] \<and>
   map path [usersFile, docFile] = map path [usersFile, docFile] \<and>
   codeContext [usersFile, docFile] = codeContext [usersFile, docFile]"
proof -
  have p: "distinct (map path [usersFile, docFile])"
    "LF \<notin> set (path usersFile)" "LF \<notin> set (path docFile)"
    by (simp_all add: usersFile_def docFile_def str_def)
  have s: "sublist (LF # fence) (content docFile)"
    by (simp add: docFile_def fence_def str_def sublist_Cons_right)
  have d: "[docFile, usersFile] \<noteq> [usersFile, docFile]"
    by (simp add: usersFile_def docFile_def str_def)
  have m: "mset [docFile, usersFile] = mset [usersFile, docFile]" by simp
  from context_deterministic_and_ordered[of "[docFile, usersFile]" "[usersFile, docFile]"] p s d m
  show ?thesis by simp
qed

text \<open>
  The claim as stated fails on the result of a scan: an entry name may hold a line feed
  and a fence, and then the blocks of two different files coincide, so both orders of
  the two files give the same context.
\<close>

theorem reordering_can_keep_context:
  "collectFiles samplePaths (str ''api'') (str ''api'') lineFeedTree
     = Inr [plainEntry, lineFeedEntry] \<and>
   mset [lineFeedEntry, plainEntry] = mset [plainEntry, lineFeedEntry] \<and>
   [lineFeedEntry, plainEntry] \<noteq> [plainEntry, lineFeedEntry] \<and>
   codeContext [lineFeedEntry, plainEntry] = codeContext [plainEntry, lineFeedEntry]"
proof -
  have "collectFiles samplePaths (str ''api'') (str ''api'') lineFeedTree
     = Inr [plainEntry, lineFeedEntry]"
    by (simp add: lineFeedTree_def plainEntry_def lineFeedEntry_def samplePaths_def extname_def
        EXTENSIONS_def IGNORE_def fence_def str_def Let_def)
  moreover have "[lineFeedEntry, plainEntry] \<noteq> [plainEntry, lineFeedEntry]"
    by (simp add: plainEntry_def lineFeedEntry_def str_def)
  moreover have "codeContext [lineFeedEntry, plainEntry] = codeContext [plainEntry, lineFeedEntry]"
    by (simp add: codeContext_def block_def plainEntry_def lineFeedEntry_def fence_def str_def)
  ultimately show ?thesis by simp
qed

end
